theory Spec2Isabelle
  imports Main "HOL-Library.Word"
begin

unbundle bit_operations_syntax

section \<open>Machine integers and memory\<close>

type_synonym u8 = "8 word"
type_synonym u16 = "16 word"
type_synonym u32 = "32 word"

text \<open>
  Byte buffers are lists of bytes. A \<open>uint16_t\<close> array is kept as the bytes it occupies,
  so that nothing depends on the byte order of the host.
\<close>

text \<open>
  Modelled from the spec: \<open>htons\<close> comes from arpa/inet.h. Words are stored in
  big-endian (network) byte order: \<open>htons(x)\<close> stored to memory is the byte pair
  (high, low) on every host.
\<close>

definition htons_store :: "u16 \<Rightarrow> u8 list" where
  "htons_store x = [ucast (drop_bit 8 x), ucast x]"

text \<open>
  Modelled from the spec: \<open>ntohs\<close> comes from arpa/inet.h. \<open>ntohs(p[j])\<close> reads the byte
  pair at byte offset \<open>2 * j\<close> of \<open>p\<close> back as a number, high byte first.
\<close>

definition ntohs_load :: "u8 list \<Rightarrow> nat \<Rightarrow> u16" where
  "ntohs_load p j = push_bit 8 (ucast (p ! (2 * j))) OR ucast (p ! (2 * j + 1))"

text \<open>
  Modelled from the spec: \<open>memalloc\<close> is defined outside this file. \<open>memalloc(n)\<close> is a
  fresh fixed-size buffer of \<open>n\<close> bytes, owned by the caller; the decoder overwrites all
  of it before it reads any of it.
\<close>

definition memalloc :: "nat \<Rightarrow> u8 list" where
  "memalloc n = replicate n 0"

text \<open>
  Modelled from the spec: \<open>memcpy\<close> comes from the C library. \<open>memcpy(&dst[off], src, n)\<close>
  copies \<open>n\<close> bytes of \<open>src\<close> into \<open>dst\<close> at byte offset \<open>off\<close>, for a range that lies
  inside \<open>dst\<close>.
\<close>

definition memcpy :: "u8 list \<Rightarrow> nat \<Rightarrow> u8 list \<Rightarrow> nat \<Rightarrow> u8 list" where
  "memcpy dst off src n = take off dst @ take n src @ drop (off + n) dst"

text \<open>The four bytes of the string literal \<open>"NLEM"\<close>.\<close>

definition NLEM :: "u8 list" where
  "NLEM = [0x4E, 0x4C, 0x45, 0x4D]"

section \<open>The bit-stream reader\<close>

text \<open>
  Modelled from the spec: \<open>struct stream\<close> is declared outside this file. A stream has
  the bits still to come, the accumulated raw word \<open>s->word\<close> and the index-relative bit
  position \<open>s->index_offset\<close>; these are the two fields this file reads.
\<close>

record stream =
  bits :: "bool list"
  word :: u32
  index_offset :: u32

text \<open>
  Modelled from the spec: \<open>stream_next_bit\<close> is declared in libdisk/util.h and defined
  outside this file. It fetches the next single bit, shifting it into the accumulated
  word and advancing the bit position; at exhaustion it returns the end-of-stream
  sentinel (\<open>None\<close> for the C value -1) and leaves the stream as it is.
\<close>

definition stream_next_bit :: "stream \<Rightarrow> bool option \<times> stream" where
  "stream_next_bit s =
     (case bits s of
        [] \<Rightarrow> (None, s)
      | b # bs \<Rightarrow>
          (Some b, s\<lparr>bits := bs,
                      word := push_bit 1 (word s) OR (if b then 1 else 0),
                      index_offset := index_offset s + 1\<rparr>))"

text \<open>
  Modelled from the spec: \<open>stream_next_bits\<close> is defined outside this file. It fetches
  the next \<open>n\<close> bits one after the other, with the same sentinel at exhaustion; the
  bits fetched are the low \<open>n\<close> bits of the accumulated word.
\<close>

fun stream_next_bits :: "stream \<Rightarrow> nat \<Rightarrow> u32 option \<times> stream" where
  "stream_next_bits s 0 = (Some 0, s)"
| "stream_next_bits s (Suc n) =
     (case stream_next_bit s of
        (None, s') \<Rightarrow> (None, s')
      | (Some b, s') \<Rightarrow>
          (case stream_next_bits s' n of
             (None, s'') \<Rightarrow> (None, s'')
           | (Some v, s'') \<Rightarrow> (Some (take_bit (Suc n) (word s'')), s'')))"

section \<open>The track buffer writer\<close>

text \<open>
  Modelled from the spec: the plane tags are declared outside this file. An emission is
  raw framing bits, all the bits of a word, its even plane or its odd plane.
\<close>

datatype tbuf_data_type = TBUFDAT_raw | TBUFDAT_all | TBUFDAT_even | TBUFDAT_odd

text \<open>
  Modelled from the spec: the timing classes are declared outside this file; this file
  only ever passes \<open>DEFAULT_SPEED\<close>.
\<close>

datatype speed = DEFAULT_SPEED

text \<open>One call \<open>tbuf_bits(tbuf, speed, type, bits, x)\<close>.\<close>

record emission =
  em_speed :: speed
  em_type :: tbuf_data_type
  em_bits :: nat
  em_x :: u32

text \<open>
  Modelled from the spec: \<open>struct track_buffer\<close>, \<open>tbuf_init\<close>, \<open>tbuf_bits\<close> and
  \<open>tbuf_finalise\<close> are defined outside this file. The writer accepts a starting bit
  offset and a total bit length, then a sequence of calls that each emit \<open>bits\<close> bits
  of \<open>x\<close> with a timing class and a plane tag, then a call that seals the buffer.
\<close>

record track_buffer =
  start :: u32
  len :: u32
  emitted :: "emission list"
  sealed :: bool

definition tbuf_init :: "track_buffer \<Rightarrow> track_buffer" where
  "tbuf_init tbuf = tbuf\<lparr>emitted := [], sealed := False\<rparr>"

definition tbuf_bits ::
  "track_buffer \<Rightarrow> speed \<Rightarrow> tbuf_data_type \<Rightarrow> nat \<Rightarrow> u32 \<Rightarrow> track_buffer" where
  "tbuf_bits tbuf spd ty n x =
     tbuf\<lparr>emitted := emitted tbuf @ [\<lparr>em_speed = spd, em_type = ty, em_bits = n, em_x = x\<rparr>]\<rparr>"

definition tbuf_finalise :: "track_buffer \<Rightarrow> track_buffer" where
  "tbuf_finalise tbuf = tbuf\<lparr>sealed := True\<rparr>"

text \<open>
  Modelled from the spec: the modulation layer behind \<open>tbuf_bits\<close> is defined outside
  this file. The bits of \<open>x\<close> go out most significant first. Raw framing bits are
  written as they are. Every other bit is a data bit in MFM: a clock cell before it,
  set when the previous bit and the data bit are both clear, then the data cell. The
  even plane of a word is its odd-position bits, the odd plane its even-position bits
  (the decoder of this file puts them back there).
\<close>

definition emission_bits :: "emission \<Rightarrow> bool list" where
  "emission_bits e =
     map (bit (em_x e))
       (case em_type e of
          TBUFDAT_raw \<Rightarrow> rev [0..<em_bits e]
        | TBUFDAT_all \<Rightarrow> rev [0..<em_bits e]
        | TBUFDAT_even \<Rightarrow> filter odd (rev [0..<em_bits e])
        | TBUFDAT_odd \<Rightarrow> filter even (rev [0..<em_bits e]))"

text \<open>
  Modelled from the spec: the MFM cells of a sequence of data bits that follows the
  data bit \<open>prev\<close>.
\<close>

fun mfm_cells :: "bool \<Rightarrow> bool list \<Rightarrow> bool list" where
  "mfm_cells prev [] = []"
| "mfm_cells prev (b # bs) = (\<not> (prev \<or> b)) # b # mfm_cells b bs"

text \<open>
  Modelled from the spec: the cells of a sequence of emissions, each modulated after
  the last bit of the one before.
\<close>

fun modulate :: "bool \<Rightarrow> emission list \<Rightarrow> bool list" where
  "modulate prev [] = []"
| "modulate prev (e # es) =
     (if em_type e = TBUFDAT_raw then emission_bits e else mfm_cells prev (emission_bits e))
     @ modulate (last (prev # emission_bits e)) es"

text \<open>
  Modelled from the spec: the cells of a sealed track buffer, from its starting offset
  on. No data bit precedes the first emission.
\<close>

definition tbuf_cells :: "track_buffer \<Rightarrow> bool list" where
  "tbuf_cells tbuf = modulate False (emitted tbuf)"

text \<open>
  Modelled from the spec: the streams of the library are opened outside this file. A
  stream opened on a sequence of cells has fetched nothing yet: its accumulated word is
  clear and its bit position is 0, so that the first bit fetched is at position 1.
\<close>

definition stream_open :: "bool list \<Rightarrow> stream" where
  "stream_open cells = \<lparr>bits = cells, word = 0, index_offset = 0\<rparr>"

section \<open>The track header\<close>

text \<open>
  Modelled from the spec: \<open>struct track_header\<close> is declared in private.h, outside this
  file; these are the fields this file reads and writes. The persisted validity bitmask
  is kept as the mask itself.
\<close>

record track_header =
  data_bitoff :: u32
  total_bits :: u32
  bytes_per_sector :: nat
  nr_sectors :: nat
  len :: nat
  valid_sectors :: u32

text \<open>
  Modelled from the spec: \<open>write_valid_sector_map\<close> and \<open>track_valid_sector_map\<close> are
  defined outside this file. They pack the validity set into the header's persisted
  representation and read it back.
\<close>

definition write_valid_sector_map :: "track_header \<Rightarrow> u32 \<Rightarrow> track_header" where
  "write_valid_sector_map h m = h\<lparr>valid_sectors := m\<rparr>"

definition track_valid_sector_map :: "track_header \<Rightarrow> u32" where
  "track_valid_sector_map h = valid_sectors h"

section \<open>The decoder: \<open>lemmings_write_mfm\<close>\<close>

text \<open>
  The variables of \<open>lemmings_write_mfm\<close> that live across passes of the scan loop:
  the output buffer, the validity bitmask and the track header.
\<close>

record decoder =
  block :: "u8 list"
  valid_blocks :: u32
  th :: track_header

text \<open>Lines 35 to 37: the buffer, filled with the tag.\<close>

definition sentinel_block :: "u8 list" where
  "sentinel_block = fold (\<lambda>i b. memcpy b (4 * i) NLEM 4) [0..<6 * 1024 div 4] (memalloc (1024 * 6))"

text \<open>Lines 61 to 63: one logical word from the accumulated 32-bit word.\<close>

definition demod_word :: "u32 \<Rightarrow> u16" where
  "demod_word w =
     (let ev = (ucast (drop_bit 16 w) :: u16);
          od = (ucast w :: u16)
      in push_bit 1 (ev AND 0x5555) OR (od AND 0x5555))"

text \<open>
  Lines 56 to 64: the demodulation loop over \<open>n\<close> words, each from one read of 32 bits;
  \<open>None\<close> is the jump to \<open>done\<close> at the end of the stream.
\<close>

fun demodulate :: "nat \<Rightarrow> stream \<Rightarrow> u8 list option \<times> stream" where
  "demodulate 0 s = (Some [], s)"
| "demodulate (Suc n) s =
     (case stream_next_bits s 32 of
        (None, s') \<Rightarrow> (None, s')
      | (Some v, s') \<Rightarrow>
          (case demodulate n s' of
             (None, s'') \<Rightarrow> (None, s'')
           | (Some raw, s'') \<Rightarrow> (Some (htons_store (demod_word (word s')) @ raw), s'')))"

text \<open>
  Lines 45 to 64, the stream part of one pass of the scan loop: the test of the mark
  word, the offset, the second mark word and the demodulation.
\<close>

datatype sync_result =
    No_sync
  | Exhausted
  | Demodulated u32 "u8 list"

definition sync_attempt :: "stream \<Rightarrow> sync_result \<times> stream" where
  "sync_attempt s =
     (if (ucast (word s) :: u16) \<noteq> 0x4489 then (No_sync, s)
      else
        let idx_off = index_offset s - 15 in
        (case stream_next_bits s 32 of
           (None, s1) \<Rightarrow> (Exhausted, s1)
         | (Some v, s1) \<Rightarrow>
             if word s1 \<noteq> 0x552aaaaa then (No_sync, s1)
             else
               (case demodulate (6 * 513) s1 of
                  (None, s2) \<Rightarrow> (Exhausted, s2)
                | (Some raw_dat, s2) \<Rightarrow> (Demodulated idx_off raw_dat, s2))))"

text \<open>Lines 70 and 71: the wraparound sum of the 512 words from word \<open>sec\<close> of \<open>raw_dat\<close>.\<close>

definition sector_sum :: "u8 list \<Rightarrow> nat \<Rightarrow> u16" where
  "sector_sum p sec = fold (\<lambda>k c. c + ntohs_load p (sec + k)) [0..<512] 0"

text \<open>Lines 68 to 77: the check of sector \<open>j\<close>; the state is the decoder and \<open>nr_valid\<close>.\<close>

definition check_sector :: "u8 list \<Rightarrow> nat \<Rightarrow> decoder \<times> u32 \<Rightarrow> decoder \<times> u32" where
  "check_sector raw_dat j = (\<lambda>(d, nr_valid).
     let sec = j * 513;
         csum = ntohs_load raw_dat sec;
         sec = sec + 1;
         c = sector_sum raw_dat sec
     in if c = csum
        then (d\<lparr>block := memcpy (block d) (j * 1024) (drop (2 * sec) raw_dat) 1024,
                valid_blocks := valid_blocks d OR push_bit j 1\<rparr>,
              nr_valid + 1)
        else (d, nr_valid))"

text \<open>Lines 66 to 81: the six checks, then the offset of this attempt.\<close>

definition validate :: "u8 list \<Rightarrow> u32 \<Rightarrow> decoder \<Rightarrow> decoder" where
  "validate raw_dat idx_off d =
     (case fold (check_sector raw_dat) [0..<6] (d, 0) of
        (d', nr_valid) \<Rightarrow>
          if nr_valid \<noteq> 0 then d'\<lparr>th := (th d')\<lparr>data_bitoff := idx_off\<rparr>\<rparr> else d')"

text \<open>The scan never puts bits back: the loop below terminates on the bits still to come.\<close>

lemma stream_next_bit_length:
  "length (bits (snd (stream_next_bit s))) \<le> length (bits s)"
  by (simp add: stream_next_bit_def split: list.split)

lemma stream_next_bit_Some_length:
  "stream_next_bit s = (Some b, s') \<Longrightarrow> length (bits s') < length (bits s)"
  by (auto simp: stream_next_bit_def split: list.splits)

lemma stream_next_bits_length:
  "length (bits (snd (stream_next_bits s n))) \<le> length (bits s)"
proof (induction n arbitrary: s)
  case 0
  show ?case by simp
next
  case (Suc n)
  show ?case
  proof (cases "stream_next_bit s")
    case (Pair r s')
    have a: "length (bits s') \<le> length (bits s)"
      using stream_next_bit_length [of s] Pair by simp
    have b: "length (bits (snd (stream_next_bits s' n))) \<le> length (bits s')"
      by (rule Suc.IH)
    show ?thesis
      using a b Pair by (cases r; cases "stream_next_bits s' n") (auto split: option.splits)
  qed
qed

lemma demodulate_length:
  "length (bits (snd (demodulate n s))) \<le> length (bits s)"
proof (induction n arbitrary: s)
  case 0
  show ?case by simp
next
  case (Suc n)
  show ?case
  proof (cases "stream_next_bits s 32")
    case (Pair r s')
    have a: "length (bits s') \<le> length (bits s)"
      using stream_next_bits_length [of s 32] Pair by simp
    have b: "length (bits (snd (demodulate n s'))) \<le> length (bits s')"
      by (rule Suc.IH)
    show ?thesis
      using a b Pair by (cases r; cases "demodulate n s'") (auto split: option.splits)
  qed
qed

lemma sync_attempt_length:
  "length (bits (snd (sync_attempt s))) \<le> length (bits s)"
proof (cases "stream_next_bits s 32")
  case (Pair r s1)
  have a: "length (bits s1) \<le> length (bits s)"
    using stream_next_bits_length [of s 32] Pair by simp
  have b: "length (bits (snd (demodulate (6 * 513) s1))) \<le> length (bits s1)"
    by (rule demodulate_length)
  show ?thesis
    using a b Pair
    by (cases r; cases "demodulate (6 * 513) s1")
       (auto simp: sync_attempt_def Let_def split: option.splits)
qed

lemma scan_measure:
  assumes "(x, y) = stream_next_bit s" and "x = Some b" and "(xa, ya) = sync_attempt y"
  shows "length (bits ya) < length (bits s)"
proof -
  have "length (bits y) < length (bits s)"
    using assms(1,2) stream_next_bit_Some_length [of s b y] by simp
  moreover have "length (bits ya) \<le> length (bits y)"
    using assms(3) sync_attempt_length [of y] by (metis snd_conv)
  ultimately show ?thesis by simp
qed

text \<open>
  Lines 39 to 82: the scan loop. Each pass fetches one bit and, unless all six sectors
  are valid, makes one synchronization attempt. The result is the stream and the
  decoder at the label \<open>done\<close>.
\<close>

function scan :: "stream \<Rightarrow> decoder \<Rightarrow> stream \<times> decoder" where
  "scan s d =
     (case stream_next_bit s of
        (None, s') \<Rightarrow> (s', d)
      | (Some b, s') \<Rightarrow>
          if valid_blocks d = push_bit 6 1 - 1 then (s', d)
          else
            (case sync_attempt s' of
               (No_sync, s'') \<Rightarrow> scan s'' d
             | (Exhausted, s'') \<Rightarrow> (s'', d)
             | (Demodulated idx_off raw_dat, s'') \<Rightarrow> scan s'' (validate raw_dat idx_off d)))"
  by pat_completeness auto
termination
proof (relation "measure (\<lambda>(s, d). length (bits s))", goal_cases)
  case 1
  show ?case by simp
next
  case (2 s d x y b xa ya)
  then show ?case using scan_measure [of x y s b xa ya] by simp
next
  case (3 s d x y b xa ya idx_off raw_dat)
  then show ?case using scan_measure [of x y s b xa ya] by simp
qed

declare scan.simps [simp del]

text \<open>
  The history of the scan loop: the same passes as \<open>scan\<close>, listing for each pass the
  bit position at which the mark word is tested and, when the demodulation completes,
  the attempt's offset and words.
\<close>

datatype event =
    Candidate u32
  | Attempt u32 "u8 list"

function scan_log :: "stream \<Rightarrow> decoder \<Rightarrow> event list" where
  "scan_log s d =
     (case stream_next_bit s of
        (None, s') \<Rightarrow> []
      | (Some b, s') \<Rightarrow>
          if valid_blocks d = push_bit 6 1 - 1 then []
          else
            Candidate (index_offset s') #
            (case sync_attempt s' of
               (No_sync, s'') \<Rightarrow> scan_log s'' d
             | (Exhausted, s'') \<Rightarrow> []
             | (Demodulated idx_off raw_dat, s'') \<Rightarrow>
                 Attempt idx_off raw_dat # scan_log s'' (validate raw_dat idx_off d)))"
  by pat_completeness auto
termination
proof (relation "measure (\<lambda>(s, d). length (bits s))", goal_cases)
  case 1
  show ?case by simp
next
  case (2 s d x y b xa ya)
  then show ?case using scan_measure [of x y s b xa ya] by simp
next
  case (3 s d x y b xa ya idx_off raw_dat)
  then show ?case using scan_measure [of x y s b xa ya] by simp
qed

declare scan_log.simps [simp del]

text \<open>
  \<open>lemmings_write_mfm\<close>: the buffer when a sector validated (\<open>None\<close> for \<open>NULL\<close>), with
  the track header and the stream as the call leaves them.
\<close>

definition lemmings_write_mfm ::
  "nat \<Rightarrow> track_header \<Rightarrow> stream \<Rightarrow> u8 list option \<times> track_header \<times> stream" where
  "lemmings_write_mfm tracknr h s =
     (case scan s \<lparr>block = sentinel_block, valid_blocks = 0, th = h\<rparr> of
        (s', d) \<Rightarrow>
          if valid_blocks d = 0 then (None, th d, s')
          else
            let h1 = (th d)\<lparr>bytes_per_sector := 1024\<rparr>;
                h2 = h1\<lparr>nr_sectors := 6\<rparr>;
                h3 = h2\<lparr>len := nr_sectors h2 * bytes_per_sector h2\<rparr>
            in (Some (block d), write_valid_sector_map h3 (valid_blocks d), s'))"

section \<open>The encoder: \<open>lemmings_read_mfm\<close>\<close>

text \<open>Lines 124 to 129: one data word, once per plane; the state is the buffer and \<open>dat\<close>.\<close>

definition emit_word :: "u8 list \<Rightarrow> track_buffer \<times> nat \<Rightarrow> track_buffer \<times> nat" where
  "emit_word p = (\<lambda>(tbuf, dat).
     let tbuf = tbuf_bits tbuf DEFAULT_SPEED TBUFDAT_even 16 (ucast (ntohs_load p dat));
         tbuf = tbuf_bits tbuf DEFAULT_SPEED TBUFDAT_odd 16 (ucast (ntohs_load p dat))
     in (tbuf, dat + 1))"

text \<open>Lines 117 to 129: sector \<open>i\<close>, its checksum word and its 512 data words.\<close>

definition emit_sector ::
  "u32 \<Rightarrow> u8 list \<Rightarrow> nat \<Rightarrow> track_buffer \<times> nat \<Rightarrow> track_buffer \<times> nat" where
  "emit_sector valid p i = (\<lambda>(tbuf, dat).
     let csum = fold (\<lambda>j c. c + ntohs_load p (dat + j)) [0..<512] (0 :: u16);
         csum = (if valid AND push_bit i 1 = 0 then NOT csum else csum);
         tbuf = tbuf_bits tbuf DEFAULT_SPEED TBUFDAT_even 16 (ucast csum);
         tbuf = tbuf_bits tbuf DEFAULT_SPEED TBUFDAT_odd 16 (ucast csum)
     in fold (\<lambda>j. emit_word p) [0..<512] (tbuf, dat))"

text \<open>
  \<open>lemmings_read_mfm\<close>: the track buffer after the call. The buffer \<open>mfm\<close> of line 105 is
  allocated and never used afterwards; it has no counterpart here.
\<close>

definition lemmings_read_mfm ::
  "nat \<Rightarrow> track_buffer \<Rightarrow> track_header \<Rightarrow> u8 list \<Rightarrow> track_buffer" where
  "lemmings_read_mfm tracknr tbuf h p =
     (let valid = track_valid_sector_map h;
          tbuf = tbuf\<lparr>start := data_bitoff h, track_buffer.len := total_bits h\<rparr>;
          tbuf = tbuf_init tbuf;
          tbuf = tbuf_bits tbuf DEFAULT_SPEED TBUFDAT_raw 16 0x4489;
          tbuf = tbuf_bits tbuf DEFAULT_SPEED TBUFDAT_all 16 0xf000
      in tbuf_finalise (fst (fold (emit_sector valid p) [0..<6] (tbuf, 0))))"

section \<open>Notions used in the statements\<close>

text \<open>
  The definitions of this section are not code of the repository. They name what the
  lemmas and the claims speak about: the accumulated word after some cells, a stream
  after some fetches, the words and cells of an encoded track, the slots of the output
  buffer and the history of the scan loop.
\<close>

subsection \<open>Streams\<close>

text \<open>The accumulated word after the cells \<open>bs\<close> have been fetched into \<open>w\<close>, one by one.\<close>

fun feed :: "u32 \<Rightarrow> bool list \<Rightarrow> u32" where
  "feed w [] = w"
| "feed w (b # bs) = feed (push_bit 1 w OR (if b then 1 else 0)) bs"

text \<open>The stream after \<open>n\<close> bits have been fetched from it (all of them, if fewer are left).\<close>

definition advance :: "stream \<Rightarrow> nat \<Rightarrow> stream" where
  "advance s n = s\<lparr>bits := drop n (bits s), word := feed (word s) (take n (bits s)),
                    index_offset := index_offset s + of_nat n\<rparr>"

text \<open>No mark word shows in the low 16 bits while the cells \<open>bs\<close> are fetched into \<open>w\<close>.\<close>

fun quiet :: "u32 \<Rightarrow> bool list \<Rightarrow> bool" where
  "quiet w [] = True"
| "quiet w (b # bs) =
     ((ucast (feed w [b]) :: u16) \<noteq> 0x4489 \<and> quiet (feed w [b]) bs)"

text \<open>The \<open>n\<close> cells of a raw word, most significant first.\<close>

definition raw_cells :: "nat \<Rightarrow> u32 \<Rightarrow> bool list" where
  "raw_cells n x = map (bit x) (rev [0..<n])"

text \<open>The 48 cells of the track header: the mark word 0x4489, then 0x552aaaaa.\<close>

definition mark_cells :: "bool list" where
  "mark_cells =
     [False, True, False, False, False, True, False, False,
      True, False, False, False, True, False, False, True,
      False, True, False, True, False, True, False, True,
      False, False, True, False, True, False, True, False,
      True, False, True, False, True, False, True, False,
      True, False, True, False, True, False, True, False]"

subsection \<open>Encoded tracks\<close>

text \<open>The two emissions of one 16-bit word: its even plane, then its odd plane.\<close>

definition word_emissions :: "u16 \<Rightarrow> emission list" where
  "word_emissions x =
     [\<lparr>em_speed = DEFAULT_SPEED, em_type = TBUFDAT_even, em_bits = 16, em_x = ucast x\<rparr>,
      \<lparr>em_speed = DEFAULT_SPEED, em_type = TBUFDAT_odd, em_bits = 16, em_x = ucast x\<rparr>]"

text \<open>The 32 cells of these two emissions, after a data bit \<open>prev\<close>.\<close>

definition word_cells :: "bool \<Rightarrow> u16 \<Rightarrow> bool list" where
  "word_cells prev x =
     mfm_cells prev [bit x 15, bit x 13, bit x 11, bit x 9, bit x 7, bit x 5, bit x 3, bit x 1]
     @ mfm_cells (bit x 1)
         [bit x 14, bit x 12, bit x 10, bit x 8, bit x 6, bit x 4, bit x 2, bit x 0]"

text \<open>
  The checksum word that the encoder emits for sector \<open>i\<close> of the buffer \<open>p\<close> (lines 117
  to 121): the sum of the sector's words, inverted when bit \<open>i\<close> of the mask is clear.
\<close>

definition emitted_csum :: "u32 \<Rightarrow> u8 list \<Rightarrow> nat \<Rightarrow> u16" where
  "emitted_csum valid p i =
     (let csum = fold (\<lambda>j c. c + ntohs_load p (512 * i + j)) [0..<512] 0
      in if valid AND push_bit i 1 = 0 then NOT csum else csum)"

text \<open>The 513 words of sector \<open>i\<close> on the track, and the 6 * 513 words of the track.\<close>

definition sector_words :: "u32 \<Rightarrow> u8 list \<Rightarrow> nat \<Rightarrow> u16 list" where
  "sector_words valid p i =
     emitted_csum valid p i # map (\<lambda>j. ntohs_load p (512 * i + j)) [0..<512]"

definition track_words :: "u32 \<Rightarrow> u8 list \<Rightarrow> u16 list" where
  "track_words valid p = concat (map (sector_words valid p) [0..<6])"

text \<open>These words as the decoder stores them in \<open>raw_dat\<close>.\<close>

definition track_raw :: "u32 \<Rightarrow> u8 list \<Rightarrow> u8 list" where
  "track_raw valid p = concat (map htons_store (track_words valid p))"

subsection \<open>The decoder's buffer and checks\<close>

text \<open>Slot \<open>j\<close> of a buffer: the 1024 bytes of sector \<open>j\<close>.\<close>

definition slot :: "u8 list \<Rightarrow> nat \<Rightarrow> u8 list" where
  "slot b j = take 1024 (drop (1024 * j) b)"

text \<open>A slot that holds 256 copies of the tag.\<close>

definition sentinel_sector :: "u8 list" where
  "sentinel_sector = concat (replicate 256 NLEM)"

text \<open>The test of line 72 for sector \<open>j\<close> of \<open>raw_dat\<close>, and the bytes that line 74 copies.\<close>

definition csum_ok :: "u8 list \<Rightarrow> nat \<Rightarrow> bool" where
  "csum_ok raw_dat j \<longleftrightarrow> sector_sum raw_dat (j * 513 + 1) = ntohs_load raw_dat (j * 513)"

definition body :: "u8 list \<Rightarrow> nat \<Rightarrow> u8 list" where
  "body raw_dat j = take 1024 (drop (2 * (j * 513 + 1)) raw_dat)"

text \<open>The decoder when it enters the scan loop (line 39), and what it returns at \<open>done\<close>.\<close>

definition fresh :: "track_header \<Rightarrow> decoder" where
  "fresh h = \<lparr>block = sentinel_block, valid_blocks = 0, th = h\<rparr>"

definition finish :: "stream \<times> decoder \<Rightarrow> u8 list option \<times> track_header \<times> stream" where
  "finish = (\<lambda>(s', d).
     if valid_blocks d = 0 then (None, th d, s')
     else (Some (block d),
           (th d)\<lparr>bytes_per_sector := 1024, nr_sectors := 6, len := 6144,
                   valid_sectors := valid_blocks d\<rparr>, s'))"

subsection \<open>Histories of the scan loop\<close>

text \<open>
  The offset recorded after a history: that of its last attempt in which a sector
  validated, or \<open>off\<close>, the offset before, when there is none.
\<close>

fun offset_after :: "u32 \<Rightarrow> event list \<Rightarrow> u32" where
  "offset_after off [] = off"
| "offset_after off (Candidate c # es) = offset_after off es"
| "offset_after off (Attempt idx_off raw_dat # es) =
     offset_after (if \<exists>j<6. csum_ok raw_dat j then idx_off else off) es"

text \<open>
  Slot \<open>j\<close> after a history: the body of its last attempt in which sector \<open>j\<close> validated,
  or \<open>b\<close>, the slot before, when there is none.
\<close>

fun slot_after :: "nat \<Rightarrow> u8 list \<Rightarrow> event list \<Rightarrow> u8 list" where
  "slot_after j b [] = b"
| "slot_after j b (Candidate c # es) = slot_after j b es"
| "slot_after j b (Attempt idx_off raw_dat # es) =
     slot_after j (if csum_ok raw_dat j then body raw_dat j else b) es"

subsection \<open>Concrete inputs\<close>

text \<open>A track header before any decode.\<close>

definition blank_header :: track_header where
  "blank_header = \<lparr>data_bitoff = 0, total_bits = 100000, bytes_per_sector = 0, nr_sectors = 0,
     len = 0, valid_sectors = 0\<rparr>"

text \<open>
  The stream a decoder reads back from the cells that the encoder writes, into an empty
  track buffer, for the buffer \<open>p\<close> and the validity mask \<open>valid\<close>.
\<close>

definition encoded_stream :: "u32 \<Rightarrow> u8 list \<Rightarrow> stream" where
  "encoded_stream valid p =
     stream_open (tbuf_cells (lemmings_read_mfm 0
       \<lparr>start = 0, len = 0, emitted = [], sealed = False\<rparr>
       \<lparr>data_bitoff = 0, total_bits = 100000, bytes_per_sector = 1024, nr_sectors = 6,
          len = 6144, valid_sectors = valid\<rparr> p))"

text \<open>
  A stream at the end of a mark word, at bit position \<open>off\<close>: the second mark word and
  6 * 513 * 32 clear cells are still to come.
\<close>

definition clear_track :: "u32 \<Rightarrow> stream" where
  "clear_track off =
     \<lparr>bits = drop 16 mark_cells @ replicate 98496 False, word = 0x4489, index_offset = off\<rparr>"

text \<open>
  A stream that holds two copies of a track, one after the other: the first of zero
  bytes with sector 5 invalid, the second of bytes 255 with all six sectors valid.
\<close>

definition two_copies :: stream where
  "two_copies =
     stream_open (bits (encoded_stream 31 (replicate 6144 0))
                  @ bits (encoded_stream 63 (replicate 6144 255)))"

section \<open>Lemmas\<close>

subsection \<open>Fetching bits\<close>

lemma advance_0: "advance s 0 = s"
  by (simp add: advance_def)

lemma stream_next_bit_Cons:
  "bits s = b # bs \<Longrightarrow> stream_next_bit s = (Some b, advance s (Suc 0))"
  by (simp add: stream_next_bit_def advance_def)

lemma stream_next_bit_Nil:
  "bits s = [] \<Longrightarrow> stream_next_bit s = (None, s)"
  by (simp add: stream_next_bit_def)

lemma feed_append: "feed w (xs @ ys) = feed (feed w xs) ys"
  by (induction xs arbitrary: w) auto

lemma advance_advance: "advance (advance s m) n = advance s (m + n)"
proof -
  have t: "take (m + n) (bits s) = take m (bits s) @ take n (drop m (bits s))"
    by (simp add: take_add)
  have d: "drop n (drop m (bits s)) = drop (m + n) (bits s)"
    by (simp add: add.commute)
  show ?thesis
    by (simp add: advance_def t feed_append add.assoc add.commute [of n m])
qed

lemma stream_next_bits_enough:
  "n \<le> length (bits s) \<Longrightarrow>
   stream_next_bits s n = (Some (take_bit n (word (advance s n))), advance s n)"
proof (induction n arbitrary: s)
  case 0
  show ?case by (simp add: advance_0)
next
  case (Suc n)
  then obtain b bs where bs: "bits s = b # bs" by (cases "bits s") auto
  have n: "n \<le> length (bits (advance s (Suc 0)))"
    using Suc.prems bs by (simp add: advance_def)
  show ?case
    using Suc.IH [OF n] by (simp add: stream_next_bit_Cons [OF bs] advance_advance)
qed

lemma stream_next_bits_short:
  "length (bits s) < n \<Longrightarrow>
   stream_next_bits s n = (None, advance s (length (bits s)))"
proof (induction n arbitrary: s)
  case 0
  then show ?case by simp
next
  case (Suc n)
  show ?case
  proof (cases "bits s")
    case Nil
    then show ?thesis by (simp add: stream_next_bit_Nil advance_0)
  next
    case (Cons b bs)
    have n: "length (bits (advance s (Suc 0))) < n"
      using Suc.prems Cons by (simp add: advance_def)
    have l: "length (bits (advance s (Suc 0))) = length bs"
      using Cons by (simp add: advance_def)
    show ?thesis
      using Suc.IH [OF n] by (simp add: stream_next_bit_Cons [OF Cons] advance_advance l Cons)
  qed
qed

lemma bit_shift_in:
  "bit (push_bit 1 w OR (if b then 1 else 0) :: u32) k \<longleftrightarrow>
     k < 32 \<and> (if k = 0 then b else bit w (k - 1))"
proof -
  have d: "bit (w * 2) n \<longleftrightarrow> n < 32 \<and> n \<noteq> 0 \<and> bit w (n - 1)" for n
    using bit_double_iff [of w n] by (simp add: mult.commute possible_bit_word)
  show ?thesis
    by (cases k) (auto simp add: bit_simps d)
qed

lemma bit_feed:
  "bit (feed w bs) k \<longleftrightarrow>
     k < 32 \<and> (if k < length bs then rev bs ! k else bit w (k - length bs))"
proof (induction bs arbitrary: w k)
  case Nil
  show ?case by (auto dest: bit_imp_le_length)
next
  case (Cons b bs)
  have "bit (feed w (b # bs)) k \<longleftrightarrow>
          k < 32 \<and> (if k < length bs then rev bs ! k
                     else bit (push_bit 1 w OR (if b then 1 else 0)) (k - length bs))"
    by (simp only: feed.simps Cons.IH)
  also have "\<dots> \<longleftrightarrow> k < 32 \<and> (if k < length (b # bs) then rev (b # bs) ! k
                     else bit w (k - length (b # bs)))"
    by (simp only: bit_shift_in) (auto simp add: nth_append less_Suc_eq)
  finally show ?case .
qed

subsection \<open>One modulated word\<close>

lemma upt_16: "[0..<16] = [0, 1, 2, 3, 4, 5, 6, 7, 8, 9, 10, 11, 12, 13, 14, 15]"
  by code_simp

lemma emission_bits_even:
  "emission_bits \<lparr>em_speed = spd, em_type = TBUFDAT_even, em_bits = 16, em_x = x\<rparr> =
     [bit x 15, bit x 13, bit x 11, bit x 9, bit x 7, bit x 5, bit x 3, bit x 1]"
  by (simp add: emission_bits_def upt_16)

lemma emission_bits_odd:
  "emission_bits \<lparr>em_speed = spd, em_type = TBUFDAT_odd, em_bits = 16, em_x = x\<rparr> =
     [bit x 14, bit x 12, bit x 10, bit x 8, bit x 6, bit x 4, bit x 2, bit x 0]"
  by (simp add: emission_bits_def upt_16)

lemma length_word_cells: "length (word_cells prev x) = 32"
  by (simp add: word_cells_def)

lemma modulate_word_emissions:
  "modulate prev (word_emissions x @ es) = word_cells prev x @ modulate (bit x 0) es"
  by (simp add: word_emissions_def word_cells_def emission_bits_even emission_bits_odd bit_ucast_iff)

lemma len16: "LENGTH(16) = 16" by simp

lemma bit_demod_word:
  "bit (demod_word w) n \<longleftrightarrow> n < 16 \<and> (if even n then bit w n else bit w (n + 15))"
proof -
  have m: "bit (0x5555 :: u16) k \<longleftrightarrow> k < 16 \<and> even k" for k
  proof (cases "k < 16")
    case True
    then have "k \<in> set [0..<16]" by simp
    then show ?thesis unfolding upt_16 by auto
  next
    case False
    then show ?thesis by (auto dest: bit_imp_le_length)
  qed
  have "bit (demod_word w) n \<longleftrightarrow>
          (1 \<le> n \<and> n < 16 \<and> bit w (16 + (n - 1)) \<and> even (n - 1)) \<or> (n < 16 \<and> bit w n \<and> even n)"
    unfolding demod_word_def Let_def
    by (simp only: bit_or_iff bit_push_bit_iff bit_and_iff bit_ucast_iff bit_drop_bit_eq m
          possible_bit_word len16) (auto simp add: )
  then show ?thesis
    by (cases n) (auto simp add: )
qed

lemma rev_word_cells_nth:
  "n < 16 \<Longrightarrow> rev (word_cells prev x) ! (if even n then n else n + 15) = bit x n"
proof -
  have "\<forall>k\<in>set [0..<16]. rev (word_cells prev x) ! (if even k then k else k + 15) = bit x k"
    unfolding upt_16 by (simp add: word_cells_def)
  moreover assume "n < 16"
  ultimately show ?thesis by simp
qed

lemma demod_word_cells: "demod_word (feed w (word_cells prev x)) = x"
proof (rule bit_word_eqI)
  fix n
  assume "n < LENGTH(16)"
  then have n: "n < 16" by simp
  show "bit (demod_word (feed w (word_cells prev x))) n \<longleftrightarrow> bit x n"
    using n rev_word_cells_nth [OF n, of prev x]
    by (simp add: bit_demod_word bit_feed length_word_cells split: if_splits)
qed

lemma modulate_words_Cons:
  "modulate prev (concat (map word_emissions (x # xs))) =
     word_cells prev x @ modulate (bit x 0) (concat (map word_emissions xs))"
  using modulate_word_emissions [of prev x "concat (map word_emissions xs)"] by simp

lemma length_modulate_words:
  "length (modulate prev (concat (map word_emissions ws))) = 32 * length ws"
proof (induction ws arbitrary: prev)
  case Nil
  show ?case by simp
next
  case (Cons x xs)
  show ?case
    by (simp only: modulate_words_Cons length_append length_word_cells Cons.IH) simp
qed

lemma bits_advance: "bits (advance s n) = drop n (bits s)"
  by (simp add: advance_def)

lemma word_advance: "word (advance s n) = feed (word s) (take n (bits s))"
  by (simp add: advance_def)

lemma index_offset_advance: "index_offset (advance s n) = index_offset s + of_nat n"
  by (simp add: advance_def)

lemma demodulate_words:
  "bits s = modulate prev (concat (map word_emissions ws)) @ rest \<Longrightarrow>
   demodulate (length ws) s = (Some (concat (map htons_store ws)), advance s (32 * length ws))"
proof (induction ws arbitrary: s prev)
  case Nil
  show ?case by (simp add: advance_0)
next
  case (Cons x xs)
  have b: "bits s = word_cells prev x @ modulate (bit x 0) (concat (map word_emissions xs)) @ rest"
    using Cons.prems by (simp only: modulate_words_Cons append_assoc)
  have n: "32 \<le> length (bits s)"
    by (simp add: b length_word_cells)
  have r: "stream_next_bits s 32 = (Some (take_bit 32 (word (advance s 32))), advance s 32)"
    by (rule stream_next_bits_enough [OF n])
  have b': "bits (advance s 32) = modulate (bit x 0) (concat (map word_emissions xs)) @ rest"
    by (simp add: bits_advance b length_word_cells)
  have w: "word (advance s 32) = feed (word s) (word_cells prev x)"
    by (simp add: word_advance b length_word_cells)
  have ih: "demodulate (length xs) (advance s 32) =
      (Some (concat (map htons_store xs)), advance (advance s 32) (32 * length xs))"
    by (rule Cons.IH [OF b'])
  show ?case
    by (simp add: r ih w demod_word_cells advance_advance)
qed

lemma scan_exhausted: "bits s = [] \<Longrightarrow> scan s d = (s, d)"
  by (subst scan.simps) (simp add: stream_next_bit_Nil)

lemma scan_all_valid:
  "bits s = b # bs \<Longrightarrow> valid_blocks d = 63 \<Longrightarrow> scan s d = (advance s (Suc 0), d)"
  by (subst scan.simps) (simp add: stream_next_bit_Cons)

lemma scan_attempt:
  "bits s = b # bs \<Longrightarrow> valid_blocks d \<noteq> 63 \<Longrightarrow>
   scan s d =
     (case sync_attempt (advance s (Suc 0)) of
        (No_sync, s'') \<Rightarrow> scan s'' d
      | (Exhausted, s'') \<Rightarrow> (s'', d)
      | (Demodulated idx_off raw_dat, s'') \<Rightarrow> scan s'' (validate raw_dat idx_off d))"
  by (subst scan.simps) (simp add: stream_next_bit_Cons)

lemma sync_attempt_no_mark:
  "(ucast (word s) :: u16) \<noteq> 0x4489 \<Longrightarrow> sync_attempt s = (No_sync, s)"
  by (simp add: sync_attempt_def)

lemma scan_quiet:
  "quiet (word s) (take n (bits s)) \<Longrightarrow> n \<le> length (bits s) \<Longrightarrow> valid_blocks d \<noteq> 63 \<Longrightarrow>
   scan s d = scan (advance s n) d"
proof (induction n arbitrary: s)
  case 0
  show ?case by (simp add: advance_0)
next
  case (Suc n)
  then obtain b bs where bs: "bits s = b # bs" by (cases "bits s") auto
  have w1: "word (advance s (Suc 0)) = feed (word s) [b]"
    by (simp add: word_advance bs)
  have q: "(ucast (word (advance s (Suc 0))) :: u16) \<noteq> 0x4489"
    and q': "quiet (word (advance s (Suc 0))) (take n (bits (advance s (Suc 0))))"
    using Suc.prems(1) by (simp_all add: bs w1 bits_advance del: feed.simps)
  have n: "n \<le> length (bits (advance s (Suc 0)))"
    using Suc.prems(2) by (simp add: bits_advance bs)
  have "scan s d = scan (advance s (Suc 0)) d"
    by (simp add: scan_attempt [OF bs Suc.prems(3)] sync_attempt_no_mark [OF q])
  also have "\<dots> = scan (advance (advance s (Suc 0)) n) d"
    by (rule Suc.IH [OF q' n Suc.prems(3)])
  finally show ?case by (simp add: advance_advance)
qed

lemma sync_attempt_demodulated:
  assumes "(ucast (word s) :: u16) = 0x4489" and "32 \<le> length (bits s)"
    and "word (advance s 32) = 0x552aaaaa"
    and "demodulate (6 * 513) (advance s 32) = (Some raw_dat, s2)"
  shows "sync_attempt s = (Demodulated (index_offset s - 15) raw_dat, s2)"
  using assms by (simp add: sync_attempt_def stream_next_bits_enough)

lemma sync_attempt_second_mark_differs:
  assumes "(ucast (word s) :: u16) = 0x4489" and "32 \<le> length (bits s)"
    and "word (advance s 32) \<noteq> 0x552aaaaa"
  shows "sync_attempt s = (No_sync, advance s 32)"
  using assms by (simp add: sync_attempt_def stream_next_bits_enough)

lemma tbuf_bits_word:
  "tbuf_bits (tbuf_bits tbuf DEFAULT_SPEED TBUFDAT_even 16 (ucast x))
       DEFAULT_SPEED TBUFDAT_odd 16 (ucast x) =
     tbuf\<lparr>emitted := emitted tbuf @ word_emissions x\<rparr>"
  by (simp add: tbuf_bits_def word_emissions_def)

lemma emit_word_eq:
  "emit_word p (tbuf, dat) =
     (tbuf\<lparr>emitted := emitted tbuf @ word_emissions (ntohs_load p dat)\<rparr>, Suc dat)"
  by (simp add: emit_word_def Let_def tbuf_bits_word)

lemma fold_emit_word:
  "fold (\<lambda>j. emit_word p) [0..<n] (tbuf, dat) =
     (tbuf\<lparr>emitted := emitted tbuf
         @ concat (map (\<lambda>j. word_emissions (ntohs_load p (dat + j))) [0..<n])\<rparr>, dat + n)"
proof (induction n)
  case 0
  show ?case by simp
next
  case (Suc n)
  show ?case
    by (simp add: Suc.IH emit_word_eq)
qed

lemma emit_sector_eq:
  "emit_sector valid p i (tbuf, 512 * i) =
     (tbuf\<lparr>emitted := emitted tbuf @ concat (map word_emissions (sector_words valid p i))\<rparr>,
      512 * Suc i)"
proof -
  have "emit_sector valid p i (tbuf, 512 * i) =
      fold (\<lambda>j. emit_word p) [0..<512]
        (tbuf\<lparr>emitted := emitted tbuf @ word_emissions (emitted_csum valid p i)\<rparr>, 512 * i)"
    unfolding emit_sector_def emitted_csum_def Let_def prod.case
    by (simp only: tbuf_bits_word)
  then show ?thesis
    by (simp add: fold_emit_word sector_words_def comp_def)
qed

lemma fold_emit_sector:
  "fold (emit_sector valid p) [0..<m] (tbuf, 0) =
     (tbuf\<lparr>emitted := emitted tbuf
         @ concat (map word_emissions (concat (map (sector_words valid p) [0..<m])))\<rparr>,
      512 * m)"
proof (induction m)
  case 0
  show ?case by simp
next
  case (Suc m)
  show ?case
    by (simp add: Suc.IH emit_sector_eq del: mult_Suc_right)
qed

lemma emitted_lemmings_read_mfm:
  "emitted (lemmings_read_mfm tracknr tbuf h p) =
     \<lparr>em_speed = DEFAULT_SPEED, em_type = TBUFDAT_raw, em_bits = 16, em_x = 0x4489\<rparr>
     # \<lparr>em_speed = DEFAULT_SPEED, em_type = TBUFDAT_all, em_bits = 16, em_x = 0xf000\<rparr>
     # concat (map word_emissions (track_words (valid_sectors h) p))"
  by (simp add: lemmings_read_mfm_def Let_def fold_emit_sector tbuf_finalise_def tbuf_init_def
        tbuf_bits_def track_valid_sector_map_def track_words_def)

subsection \<open>Scanning an encoded track\<close>

lemma modulate_marks:
  "modulate False
     (\<lparr>em_speed = DEFAULT_SPEED, em_type = TBUFDAT_raw, em_bits = 16, em_x = 0x4489\<rparr>
      # \<lparr>em_speed = DEFAULT_SPEED, em_type = TBUFDAT_all, em_bits = 16, em_x = 0xf000\<rparr>
      # es) = mark_cells @ modulate False es"
  by (simp add: emission_bits_def upt_16 mark_cells_def)

lemma length_sector_words: "length (sector_words valid p i) = 513"
  by (simp add: sector_words_def)

lemma length_track_words: "length (track_words valid p) = 3078"
  by (simp add: track_words_def length_concat comp_def length_sector_words sum_list_triv)

lemma tbuf_cells_lemmings_read_mfm:
  "tbuf_cells (lemmings_read_mfm tracknr tbuf h p) =
     mark_cells @ modulate False (concat (map word_emissions (track_words (valid_sectors h) p)))"
  by (simp only: tbuf_cells_def emitted_lemmings_read_mfm modulate_marks)

lemma length_mark_cells: "length mark_cells = 48"
  by (simp add: mark_cells_def)

lemma quiet_marks: "quiet 0 (take 15 mark_cells)"
  by (simp add: mark_cells_def)

lemma feed_first_mark: "feed 0 (take 16 mark_cells) = 0x4489"
  by (simp add: mark_cells_def)

lemma feed_32: "length bs = 32 \<Longrightarrow> feed w bs = feed 0 bs"
  by (rule bit_eqI) (auto simp add: bit_feed)

lemma feed_second_mark: "feed w (drop 16 mark_cells) = 0x552aaaaa"
proof -
  have "feed w (drop 16 mark_cells) = feed 0 (drop 16 mark_cells)"
    by (rule feed_32) (simp add: mark_cells_def)
  also have "\<dots> = 0x552aaaaa"
    by (simp add: mark_cells_def)
  finally show ?thesis .
qed

lemma scan_encoded:
  assumes d: "valid_blocks d \<noteq> 63"
  shows "scan (stream_open (tbuf_cells (lemmings_read_mfm tracknr tbuf h p))) d =
     (advance (stream_open (tbuf_cells (lemmings_read_mfm tracknr tbuf h p))) 98544,
      validate (concat (map htons_store (track_words (valid_sectors h) p))) 1 d)"
proof -
  define ws where "ws = track_words (valid_sectors h) p"
  define dat where "dat = modulate False (concat (map word_emissions ws))"
  define s0 where "s0 = stream_open (tbuf_cells (lemmings_read_mfm tracknr tbuf h p))"
  have lw: "length ws = 3078"
    by (simp add: ws_def length_track_words)
  have ld: "length dat = 98496"
    by (simp add: dat_def length_modulate_words lw)
  have b0: "bits s0 = mark_cells @ dat"
    by (simp add: s0_def stream_open_def tbuf_cells_lemmings_read_mfm dat_def ws_def)
  have w0: "word s0 = 0" and i0: "index_offset s0 = 0"
    by (simp_all add: s0_def stream_open_def)
  have 1: "scan s0 d = scan (advance s0 15) d"
    by (rule scan_quiet) (simp_all add: b0 w0 length_mark_cells quiet_marks d)
  have "bits (advance s0 15) = drop 15 mark_cells @ dat"
    by (simp add: bits_advance b0 length_mark_cells)
  then obtain b bs where bs: "bits (advance s0 15) = b # bs"
    by (simp add: mark_cells_def)
  have a16: "advance (advance s0 15) (Suc 0) = advance s0 16"
    by (simp add: advance_advance)
  have m1: "(ucast (word (advance s0 16)) :: u16) = 0x4489"
    by (simp add: word_advance b0 w0 length_mark_cells feed_first_mark)
  have l16: "32 \<le> length (bits (advance s0 16))"
    by (simp add: bits_advance b0 length_mark_cells)
  have m2: "word (advance (advance s0 16) 32) = 0x552aaaaa"
    by (simp add: word_advance bits_advance b0 length_mark_cells feed_second_mark)
  have b48: "bits (advance (advance s0 16) 32) = modulate False (concat (map word_emissions ws)) @ []"
    by (simp add: bits_advance b0 length_mark_cells dat_def)
  have dm: "demodulate (6 * 513) (advance (advance s0 16) 32) =
      (Some (concat (map htons_store ws)), advance s0 98544)"
    using demodulate_words [OF b48] by (simp add: lw advance_advance)
  have sa: "sync_attempt (advance s0 16) =
      (Demodulated (index_offset (advance s0 16) - 15) (concat (map htons_store ws)), advance s0 98544)"
    by (rule sync_attempt_demodulated [OF m1 l16 m2 dm])
  have io: "index_offset (advance s0 16) - 15 = 1"
    by (simp add: index_offset_advance i0)
  have e: "bits (advance s0 98544) = []"
    by (simp add: bits_advance b0 length_mark_cells ld)
  have 2: "scan (advance s0 15) d =
      scan (advance s0 98544) (validate (concat (map htons_store ws)) 1 d)"
    by (simp add: scan_attempt [OF bs d] a16 sa io)
  have 3: "scan (advance s0 98544) (validate (concat (map htons_store ws)) 1 d) =
      (advance s0 98544, validate (concat (map htons_store ws)) 1 d)"
    by (rule scan_exhausted [OF e])
  show ?thesis
    using 1 2 3 unfolding s0_def ws_def by simp
qed

subsection \<open>Bytes and words\<close>

lemma htons_store_ntohs_load:
  "htons_store (ntohs_load p k) = [p ! (2 * k), p ! (2 * k + 1)]"
proof -
  have a: "(ucast (drop_bit 8 (push_bit 8 (ucast a) OR ucast b :: u16)) :: u8) = a" for a b :: u8
    by (rule bit_word_eqI) (auto simp add: bit_simps dest: bit_imp_le_length)
  have b: "(ucast (push_bit 8 (ucast a) OR ucast b :: u16) :: u8) = b" for a b :: u8
    by (rule bit_word_eqI) (auto simp add: bit_simps dest: bit_imp_le_length)
  show ?thesis
    unfolding htons_store_def ntohs_load_def a b by simp
qed

lemma ntohs_load_htons_store:
  "ntohs_load (htons_store x @ rest) 0 = x"
proof -
  have "push_bit 8 (ucast (ucast (drop_bit 8 x) :: u8)) OR ucast (ucast x :: u8) = x"
    by (rule bit_word_eqI) (auto simp add: bit_simps dest: bit_imp_le_length)
  then show ?thesis
    unfolding htons_store_def ntohs_load_def by simp
qed

lemma length_htons_store: "length (htons_store x) = 2"
  by (simp add: htons_store_def)

lemma ntohs_load_drop:
  "ntohs_load (a # b # p) (Suc k) = ntohs_load p k"
  by (simp add: ntohs_load_def)

lemma ntohs_load_words:
  "k < length ws \<Longrightarrow> ntohs_load (concat (map htons_store ws)) k = ws ! k"
proof (induction ws arbitrary: k)
  case Nil
  then show ?case by simp
next
  case (Cons x xs)
  show ?case
  proof (cases k)
    case 0
    then show ?thesis
      using ntohs_load_htons_store [of x "concat (map htons_store xs)"] by simp
  next
    case (Suc k')
    then have "ntohs_load (concat (map htons_store (x # xs))) k
        = ntohs_load (concat (map htons_store xs)) k'"
      by (simp add: htons_store_def ntohs_load_drop)
    then show ?thesis
      using Cons.IH [of k'] Cons.prems Suc by simp
  qed
qed

lemma length_concat_htons: "length (concat (map htons_store ws)) = 2 * length ws"
  by (induction ws) (simp_all add: htons_store_def)

lemma drop_concat_htons:
  "drop (2 * a) (concat (map htons_store ws)) = concat (map htons_store (drop a ws))"
proof (induction ws arbitrary: a)
  case Nil
  show ?case by simp
next
  case (Cons x xs)
  show ?case
  proof (cases a)
    case 0
    then show ?thesis by simp
  next
    case (Suc a')
    then show ?thesis
      using Cons.IH [of a'] by (simp add: htons_store_def)
  qed
qed

lemma take_concat_htons:
  "take (2 * a) (concat (map htons_store ws)) = concat (map htons_store (take a ws))"
proof (induction ws arbitrary: a)
  case Nil
  show ?case by simp
next
  case (Cons x xs)
  show ?case
  proof (cases a)
    case 0
    then show ?thesis by simp
  next
    case (Suc a')
    then show ?thesis
      using Cons.IH [of a'] by (simp add: htons_store_def)
  qed
qed

lemma bytes_of_loaded_words:
  "2 * (a + n) \<le> length p \<Longrightarrow>
   concat (map (\<lambda>k. htons_store (ntohs_load p (a + k))) [0..<n]) = take (2 * n) (drop (2 * a) p)"
proof (induction n)
  case 0
  show ?case by simp
next
  case (Suc n)
  have l: "2 * n < length (drop (2 * a) p)" "Suc (2 * n) < length (drop (2 * a) p)"
    using Suc.prems by simp_all
  have "take (2 * Suc n) (drop (2 * a) p) =
      take (2 * n) (drop (2 * a) p) @ [drop (2 * a) p ! (2 * n), drop (2 * a) p ! Suc (2 * n)]"
    using l by (simp add: take_Suc_conv_app_nth)
  moreover have "drop (2 * a) p ! (2 * n) = p ! (2 * (a + n))"
    "drop (2 * a) p ! Suc (2 * n) = p ! (2 * (a + n) + 1)"
    using Suc.prems by (simp_all add: algebra_simps)
  ultimately show ?case
    using Suc by (simp add: htons_store_ntohs_load)
qed

lemma length_concat_map_uniform:
  "(\<And>i. i < m \<Longrightarrow> length (f i) = n) \<Longrightarrow> length (concat (map f [0..<m])) = n * m"
  by (induction m) simp_all

lemma nth_concat_map_uniform:
  "(\<And>i. i < m \<Longrightarrow> length (f i) = n) \<Longrightarrow> i < m \<Longrightarrow> k < n \<Longrightarrow>
   concat (map f [0..<m]) ! (n * i + k) = f i ! k"
proof (induction m)
  case 0
  then show ?case by simp
next
  case (Suc m)
  have l: "length (concat (map f [0..<m])) = n * m"
    using Suc.prems(1) by (intro length_concat_map_uniform) simp
  show ?case
  proof (cases "i < m")
    case True
    then have "n * i + k < n * m"
    proof -
      have "n * i + k < n * i + n" using Suc.prems(3) by simp
      also have "\<dots> = n * Suc i" by simp
      also have "\<dots> \<le> n * m" using True by (intro mult_le_mono2) simp
      finally show ?thesis .
    qed
    then show ?thesis
      using Suc.IH [OF _ True Suc.prems(3)] Suc.prems(1) by (simp add: nth_append l)
  next
    case False
    then have "i = m" using Suc.prems(2) by simp
    then show ?thesis by (simp add: nth_append l)
  qed
qed

lemma track_words_csum:
  "j < 6 \<Longrightarrow> track_words valid p ! (513 * j) = emitted_csum valid p j"
  using nth_concat_map_uniform [of 6 "sector_words valid p" 513 j 0]
  by (simp add: track_words_def length_sector_words) (simp add: sector_words_def)

lemma track_words_body:
  "j < 6 \<Longrightarrow> k < 512 \<Longrightarrow>
   track_words valid p ! (513 * j + 1 + k) = ntohs_load p (512 * j + k)"
  using nth_concat_map_uniform [of 6 "sector_words valid p" 513 j "Suc k"]
  by (simp add: track_words_def length_sector_words) (simp add: sector_words_def)

lemma track_words_sector:
  assumes "j < 6"
  shows "take 512 (drop (513 * j + 1) (track_words valid p)) =
     map (\<lambda>k. ntohs_load p (512 * j + k)) [0..<512]"
proof (rule nth_equalityI)
  show "length (take 512 (drop (513 * j + 1) (track_words valid p))) =
      length (map (\<lambda>k. ntohs_load p (512 * j + k)) [0..<512])"
    using assms by (simp add: length_track_words)
next
  fix k
  assume "k < length (take 512 (drop (513 * j + 1) (track_words valid p)))"
  then have k: "k < 512" by simp
  have "513 * j + 1 + k < 3078" using assms k by simp
  then show "take 512 (drop (513 * j + 1) (track_words valid p)) ! k =
      map (\<lambda>k. ntohs_load p (512 * j + k)) [0..<512] ! k"
    using k track_words_body [OF assms k, of valid p] by (simp add: length_track_words)
qed

lemma length_track_raw: "length (track_raw valid p) = 6156"
  by (simp add: track_raw_def length_concat_htons length_track_words)

lemma track_raw_csum:
  "j < 6 \<Longrightarrow> ntohs_load (track_raw valid p) (j * 513) = emitted_csum valid p j"
  by (simp add: track_raw_def ntohs_load_words length_track_words track_words_csum
        mult.commute [of j 513])

lemma track_raw_body:
  "j < 6 \<Longrightarrow> k < 512 \<Longrightarrow>
   ntohs_load (track_raw valid p) (j * 513 + 1 + k) = ntohs_load p (512 * j + k)"
  using track_words_body [of j k valid p]
  by (simp add: track_raw_def ntohs_load_words length_track_words mult.commute [of j 513])

lemma track_raw_sector:
  assumes "j < 6" and "length p = 6144"
  shows "take 1024 (drop (2 * (j * 513 + 1)) (track_raw valid p)) = take 1024 (drop (1024 * j) p)"
proof -
  have "take (2 * 512) (drop (2 * (513 * j + 1)) (track_raw valid p)) =
      concat (map htons_store (take 512 (drop (513 * j + 1) (track_words valid p))))"
    unfolding track_raw_def by (simp only: drop_concat_htons take_concat_htons)
  also have "\<dots> = concat (map (\<lambda>k. htons_store (ntohs_load p (512 * j + k))) [0..<512])"
    using track_words_sector [OF assms(1), of valid p] by (simp add: comp_def)
  also have "\<dots> = take (2 * 512) (drop (2 * (512 * j)) p)"
    using assms by (intro bytes_of_loaded_words) simp
  finally show ?thesis by (simp add: mult.commute [of j 513])
qed

subsection \<open>The sector checks\<close>

lemma check_sector_eq:
  "check_sector raw_dat j (d, n) =
     (if csum_ok raw_dat j
      then (d\<lparr>block := memcpy (block d) (j * 1024) (drop (2 * (j * 513 + 1)) raw_dat) 1024,
              valid_blocks := valid_blocks d OR push_bit j 1\<rparr>, n + 1)
      else (d, n))"
  by (simp add: check_sector_def csum_ok_def Let_def)

lemma fold_check_Suc:
  "fold (check_sector raw_dat) [0..<Suc m] dn =
     check_sector raw_dat m (fold (check_sector raw_dat) [0..<m] dn)"
  by simp

lemma length_memcpy:
  "off + n \<le> length dst \<Longrightarrow> n \<le> length src \<Longrightarrow> length (memcpy dst off src n) = length dst"
  by (simp add: memcpy_def)

lemma slot_memcpy:
  assumes "length dst = 6144" and "j < 6" and "i < 6" and "1024 \<le> length src"
  shows "slot (memcpy dst (j * 1024) src 1024) i = (if i = j then take 1024 src else slot dst i)"
proof -
  consider "i < j" | "i = j" | "j < i" by linarith
  then show ?thesis
  proof cases
    case 1
    then have "1024 * i + 1024 \<le> j * 1024" by simp
    then have "take 1024 (drop (1024 * i) (take (j * 1024) dst)) = take 1024 (drop (1024 * i) dst)"
      by (simp add: drop_take min_def)
    then show ?thesis
      using 1 assms by (simp add: slot_def memcpy_def)
  next
    case 2
    then show ?thesis
      using assms by (simp add: slot_def memcpy_def min_def)
  next
    case 3
    then show ?thesis
      using assms by (simp add: slot_def memcpy_def min_def)
  qed
qed

lemma fold_check_th:
  "th (fst (fold (check_sector raw_dat) [0..<m] (d, n))) = th d"
proof (induction m)
  case 0
  show ?case by simp
next
  case (Suc m)
  obtain d' n' where p: "fold (check_sector raw_dat) [0..<m] (d, n) = (d', n')"
    by (cases "fold (check_sector raw_dat) [0..<m] (d, n)")
  show ?case
    using Suc.IH by (simp only: fold_check_Suc p check_sector_eq) simp
qed

lemma bit_sector_mask: "bit (2 ^ j :: u32) i \<longleftrightarrow> i = j \<and> j < 32"
  by (auto simp add: bit_exp_iff possible_bit_word)

lemma fold_check_valid:
  "bit (valid_blocks (fst (fold (check_sector raw_dat) [0..<m] (d, n)))) i \<longleftrightarrow>
     bit (valid_blocks d) i \<or> (i < m \<and> i < 32 \<and> csum_ok raw_dat i)"
proof (induction m)
  case 0
  show ?case by simp
next
  case (Suc m)
  obtain d' n' where p: "fold (check_sector raw_dat) [0..<m] (d, n) = (d', n')"
    by (cases "fold (check_sector raw_dat) [0..<m] (d, n)")
  show ?case
    using Suc.IH
    by (simp only: fold_check_Suc p check_sector_eq)
       (auto simp add: bit_or_iff bit_sector_mask less_Suc_eq)
qed

lemma fold_check_count:
  "snd (fold (check_sector raw_dat) [0..<m] (d, n)) =
     n + of_nat (length (filter (csum_ok raw_dat) [0..<m]))"
proof (induction m)
  case 0
  show ?case by simp
next
  case (Suc m)
  obtain d' n' where p: "fold (check_sector raw_dat) [0..<m] (d, n) = (d', n')"
    by (cases "fold (check_sector raw_dat) [0..<m] (d, n)")
  show ?case
    using Suc.IH by (simp only: fold_check_Suc p check_sector_eq) simp
qed

lemma fold_check_length:
  assumes "length (block d) = 6144" and "length raw_dat = 6156" and "m \<le> 6"
  shows "length (block (fst (fold (check_sector raw_dat) [0..<m] (d, n)))) = 6144"
  using assms(3)
proof (induction m)
  case 0
  show ?case using assms(1) by simp
next
  case (Suc m)
  obtain d' n' where p: "fold (check_sector raw_dat) [0..<m] (d, n) = (d', n')"
    by (cases "fold (check_sector raw_dat) [0..<m] (d, n)")
  have l: "length (block d') = 6144"
    using Suc p by simp
  have "length (memcpy (block d') (m * 1024) (drop (2 * (m * 513 + 1)) raw_dat) 1024) = 6144"
    using l assms(2) Suc.prems by (simp add: length_memcpy)
  then show ?case
    using l by (simp only: fold_check_Suc p check_sector_eq) simp
qed

lemma fold_check_slot:
  assumes "length (block d) = 6144" and "length raw_dat = 6156" and "m \<le> 6" and "i < 6"
  shows "slot (block (fst (fold (check_sector raw_dat) [0..<m] (d, n)))) i =
     (if i < m \<and> csum_ok raw_dat i then body raw_dat i else slot (block d) i)"
  using assms(3)
proof (induction m)
  case 0
  show ?case by simp
next
  case (Suc m)
  obtain d' n' where p: "fold (check_sector raw_dat) [0..<m] (d, n) = (d', n')"
    by (cases "fold (check_sector raw_dat) [0..<m] (d, n)")
  have l: "length (block d') = 6144"
    using fold_check_length [OF assms(1,2), of m n] Suc.prems p by simp
  have ih: "slot (block d') i =
      (if i < m \<and> csum_ok raw_dat i then body raw_dat i else slot (block d) i)"
    using Suc p by simp
  have s: "slot (memcpy (block d') (m * 1024) (drop (2 * (m * 513 + 1)) raw_dat) 1024) i =
      (if i = m then body raw_dat m else slot (block d') i)"
    using l assms(2,4) Suc.prems by (subst slot_memcpy) (simp_all add: body_def)
  show ?case
    using ih s by (simp only: fold_check_Suc p check_sector_eq) (auto simp add: less_Suc_eq)
qed

lemma count_nonzero:
  "(of_nat (length (filter P [0..<6])) :: u32) \<noteq> 0 \<longleftrightarrow> (\<exists>j<6. P j)"
proof -
  have "length (filter P [0..<6]) \<le> 6"
    using length_filter_le [of P "[0..<6]"] by simp
  then have "unat (of_nat (length (filter P [0..<6])) :: u32) = length (filter P [0..<6])"
    by (simp add: unat_of_nat)
  then have "(of_nat (length (filter P [0..<6])) :: u32) = 0 \<longleftrightarrow> length (filter P [0..<6]) = 0"
    by (metis unat_eq_zero)
  also have "\<dots> \<longleftrightarrow> \<not> (\<exists>j<6. P j)"
    by (auto simp add: filter_empty_conv)
  finally show ?thesis by simp
qed

lemma validate_eq:
  "validate raw_dat idx_off d =
     (let d' = fst (fold (check_sector raw_dat) [0..<6] (d, 0))
      in if \<exists>j<6. csum_ok raw_dat j then d'\<lparr>th := (th d')\<lparr>data_bitoff := idx_off\<rparr>\<rparr> else d')"
proof -
  obtain d' n' where p: "fold (check_sector raw_dat) [0..<6] (d, 0) = (d', n')"
    by (cases "fold (check_sector raw_dat) [0..<6] (d, 0)")
  have "n' \<noteq> 0 \<longleftrightarrow> (\<exists>j<6. csum_ok raw_dat j)"
    using fold_check_count [of raw_dat 6 d 0] p by (simp add: count_nonzero)
  then show ?thesis
    by (simp add: validate_def p Let_def)
qed

lemma validate_valid_blocks:
  "bit (valid_blocks (validate raw_dat idx_off d)) i \<longleftrightarrow>
     bit (valid_blocks d) i \<or> (i < 6 \<and> csum_ok raw_dat i)"
  using fold_check_valid [of raw_dat 6 d 0 i]
  by (auto simp add: validate_eq Let_def)

lemma validate_th:
  "th (validate raw_dat idx_off d) =
     (if \<exists>j<6. csum_ok raw_dat j then (th d)\<lparr>data_bitoff := idx_off\<rparr> else th d)"
proof (cases "\<exists>j<6. csum_ok raw_dat j")
  case True
  then have "validate raw_dat idx_off d =
      (fst (fold (check_sector raw_dat) [0..<6] (d, 0)))
        \<lparr>th := (th (fst (fold (check_sector raw_dat) [0..<6] (d, 0))))\<lparr>data_bitoff := idx_off\<rparr>\<rparr>"
    by (simp only: validate_eq Let_def if_True)
  then show ?thesis
    using True by (simp only: fold_check_th if_True) simp
next
  case False
  then have "validate raw_dat idx_off d = fst (fold (check_sector raw_dat) [0..<6] (d, 0))"
    by (simp only: validate_eq Let_def if_False)
  then show ?thesis
    using False by (simp only: fold_check_th if_False)
qed

lemma validate_length:
  "length (block d) = 6144 \<Longrightarrow> length raw_dat = 6156 \<Longrightarrow>
   length (block (validate raw_dat idx_off d)) = 6144"
  using fold_check_length [of d raw_dat 6 0]
  by (simp add: validate_eq Let_def)

lemma validate_slot:
  "length (block d) = 6144 \<Longrightarrow> length raw_dat = 6156 \<Longrightarrow> i < 6 \<Longrightarrow>
   slot (block (validate raw_dat idx_off d)) i =
     (if csum_ok raw_dat i then body raw_dat i else slot (block d) i)"
  using fold_check_slot [of d raw_dat 6 i 0]
  by (simp add: validate_eq Let_def)

lemma not_word_neq: "NOT x \<noteq> (x :: 'a::len word)"
proof
  assume "NOT x = x"
  then have "bit (NOT x) 0 \<longleftrightarrow> bit x 0" by simp
  then show False by (simp add: bit_not_iff)
qed

lemma sector_sum_track_raw:
  assumes "j < 6"
  shows "sector_sum (track_raw valid p) (j * 513 + 1) =
     fold (\<lambda>k c. c + ntohs_load p (512 * j + k)) [0..<512] 0"
  unfolding sector_sum_def
proof (rule fold_cong)
  fix k
  assume "k \<in> set [0..<512]"
  then have "k < 512" by simp
  then have "ntohs_load (track_raw valid p) (j * 513 + 1 + k) = ntohs_load p (512 * j + k)"
    by (rule track_raw_body [OF assms])
  then show "(\<lambda>c. c + ntohs_load (track_raw valid p) (j * 513 + 1 + k)) =
      (\<lambda>c. c + ntohs_load p (512 * j + k))"
    by simp
qed simp_all

lemma csum_ok_track_raw:
  assumes "j < 6"
  shows "csum_ok (track_raw valid p) j \<longleftrightarrow> bit valid j"
proof -
  have "valid AND push_bit j 1 = 0 \<longleftrightarrow> \<not> bit valid j"
    by (simp add: and_exp_eq_0_iff_not_bit)
  moreover have "csum_ok (track_raw valid p) j \<longleftrightarrow>
      fold (\<lambda>k c. c + ntohs_load p (512 * j + k)) [0..<512] 0 = emitted_csum valid p j"
    unfolding csum_ok_def by (simp only: sector_sum_track_raw [OF assms] track_raw_csum [OF assms])
  ultimately show ?thesis
    using not_word_neq [of "fold (\<lambda>k c. c + ntohs_load p (512 * j + k)) [0..<512] (0 :: u16)"]
    by (auto simp add: emitted_csum_def Let_def)
qed

lemma body_track_raw:
  "j < 6 \<Longrightarrow> length p = 6144 \<Longrightarrow> body (track_raw valid p) j = slot p j"
  unfolding body_def slot_def by (rule track_raw_sector)

subsection \<open>The buffer of tags\<close>

lemma concat_replicate_snoc: "concat (replicate m xs) @ xs = concat (replicate (Suc m) xs)"
  by (induction m) simp_all

lemma length_concat_replicate_NLEM: "length (concat (replicate m NLEM)) = 4 * m"
  by (induction m) (simp_all add: NLEM_def)

lemma fold_fill:
  "m \<le> n \<Longrightarrow>
   fold (\<lambda>i b. memcpy b (4 * i) NLEM 4) [0..<m] (replicate (4 * n) 0) =
     concat (replicate m NLEM) @ replicate (4 * (n - m)) 0"
proof (induction m)
  case 0
  show ?case by simp
next
  case (Suc m)
  have l: "length NLEM = 4" by (simp add: NLEM_def)
  have "memcpy (concat (replicate m NLEM) @ replicate (4 * (n - m)) 0) (4 * m) NLEM 4 =
      (concat (replicate m NLEM) @ NLEM) @ replicate (4 * (n - Suc m)) 0"
    using Suc.prems by (simp add: memcpy_def length_concat_replicate_NLEM l)
  then show ?case
    using Suc by (simp only: upt_Suc_append [OF le0] fold_append comp_apply fold.simps
        concat_replicate_snoc id_apply)
qed

lemma sentinel_block_eq: "sentinel_block = concat (replicate 1536 NLEM)"
  using fold_fill [of 1536 1536] by (simp add: sentinel_block_def memalloc_def)

lemma length_sentinel_block: "length sentinel_block = 6144"
  by (simp add: sentinel_block_eq length_concat_replicate_NLEM)

lemma drop_concat_replicate:
  "drop (length xs * a) (concat (replicate n xs)) = concat (replicate (n - a) xs)"
proof (induction n arbitrary: a)
  case 0
  show ?case by simp
next
  case (Suc n)
  show ?case
  proof (cases a)
    case 0
    then show ?thesis by simp
  next
    case (Suc a')
    then show ?thesis using Suc.IH [of a'] by simp
  qed
qed

lemma take_concat_replicate:
  "a \<le> n \<Longrightarrow> take (length xs * a) (concat (replicate n xs)) = concat (replicate a xs)"
proof (induction n arbitrary: a)
  case 0
  then show ?case by simp
next
  case (Suc n)
  show ?case
  proof (cases a)
    case 0
    then show ?thesis by simp
  next
    case (Suc a')
    then show ?thesis using Suc.IH [of a'] Suc.prems by simp
  qed
qed

lemma length_NLEM: "length NLEM = 4"
  by (simp add: NLEM_def)

lemma drop_concat_replicate_NLEM:
  "drop (4 * a) (concat (replicate n NLEM)) = concat (replicate (n - a) NLEM)"
  using drop_concat_replicate [of NLEM a n] by (simp only: length_NLEM)

lemma take_concat_replicate_NLEM:
  "a \<le> n \<Longrightarrow> take (4 * a) (concat (replicate n NLEM)) = concat (replicate a NLEM)"
  using take_concat_replicate [of a n NLEM] by (simp only: length_NLEM)

lemma slot_sentinel_block: "j < 6 \<Longrightarrow> slot sentinel_block j = sentinel_sector"
proof -
  assume j: "j < 6"
  have "drop (4 * (256 * j)) (concat (replicate 1536 NLEM)) = concat (replicate (1536 - 256 * j) NLEM)"
    by (rule drop_concat_replicate_NLEM)
  moreover have "take (4 * 256) (concat (replicate (1536 - 256 * j) NLEM)) = concat (replicate 256 NLEM)"
    using j by (intro take_concat_replicate_NLEM) simp
  ultimately show ?thesis
    by (simp add: slot_def sentinel_block_eq sentinel_sector_def)
qed

subsection \<open>Decoding an encoded track\<close>

lemma lemmings_write_mfm_eq:
  "lemmings_write_mfm tracknr h s = finish (scan s (fresh h))"
  by (cases "scan s (fresh h)")
     (simp add: lemmings_write_mfm_def finish_def fresh_def Let_def write_valid_sector_map_def)

lemma encoded_valid_blocks:
  "valid_blocks (validate (track_raw valid p) idx_off (fresh h0)) = take_bit 6 valid"
proof (rule bit_word_eqI)
  fix i
  assume "i < LENGTH(32)"
  show "bit (valid_blocks (validate (track_raw valid p) idx_off (fresh h0))) i
      \<longleftrightarrow> bit (take_bit 6 valid) i"
    using csum_ok_track_raw [of i valid p]
    by (auto simp add: validate_valid_blocks bit_take_bit_iff fresh_def)
qed

lemma encoded_slot:
  assumes "length p = 6144" and "j < 6"
  shows "slot (block (validate (track_raw valid p) idx_off (fresh h0))) j =
     (if bit valid j then slot p j else sentinel_sector)"
proof -
  have "slot (block (validate (track_raw valid p) idx_off (fresh h0))) j =
      (if csum_ok (track_raw valid p) j then body (track_raw valid p) j
       else slot (block (fresh h0)) j)"
    using assms(2) by (intro validate_slot) (simp_all add: fresh_def length_sentinel_block length_track_raw)
  then show ?thesis
    using assms by (simp add: csum_ok_track_raw body_track_raw fresh_def slot_sentinel_block)
qed

lemma decode_encoded:
  "lemmings_write_mfm tracknr' h0
     (stream_open (tbuf_cells (lemmings_read_mfm tracknr tbuf h p))) =
   finish (advance (stream_open (tbuf_cells (lemmings_read_mfm tracknr tbuf h p))) 98544,
           validate (track_raw (valid_sectors h) p) 1 (fresh h0))"
proof -
  have "valid_blocks (fresh h0) \<noteq> 63" by (simp add: fresh_def)
  then show ?thesis
    by (simp only: lemmings_write_mfm_eq scan_encoded [OF \<open>valid_blocks (fresh h0) \<noteq> 63\<close>] track_raw_def)
qed

subsection \<open>Demodulation in general\<close>

lemma upt_32:
  "[0..<32] = [0, 1, 2, 3, 4, 5, 6, 7, 8, 9, 10, 11, 12, 13, 14, 15, 16, 17, 18, 19, 20, 21, 22,
     23, 24, 25, 26, 27, 28, 29, 30, 31]"
  by code_simp

lemma marks_raw_cells: "mark_cells = raw_cells 16 0x4489 @ raw_cells 32 0x552aaaaa"
  by (simp add: mark_cells_def raw_cells_def upt_16 upt_32)

lemma concat_map_concat:
  "concat (map f (concat xss)) = concat (map (\<lambda>xs. concat (map f xs)) xss)"
  by (induction xss) simp_all

lemma replicate_32:
  "replicate 32 b =
     [b, b, b, b, b, b, b, b, b, b, b, b, b, b, b, b, b, b, b, b, b, b, b, b, b, b, b, b, b, b, b, b]"
  by (simp add: numeral_eq_Suc)

lemma feed_zero_cells: "feed w (replicate 32 False) = 0"
proof -
  have "feed w (replicate 32 False) = feed 0 (replicate 32 False)"
    by (rule feed_32) simp
  also have "\<dots> = 0" unfolding replicate_32 by simp
  finally show ?thesis .
qed

lemma demod_word_0: "demod_word 0 = 0"
  by (simp add: demod_word_def)

lemma upt_Suc_Cons: "[0..<Suc n] = 0 # map Suc [0..<n]"
  by (simp add: upt_conv_Cons map_Suc_upt del: upt_Suc)

lemma demodulate_enough:
  "32 * n \<le> length (bits s) \<Longrightarrow>
   demodulate n s =
     (Some (concat (map (\<lambda>j. htons_store (demod_word (feed 0 (take 32 (drop (32 * j) (bits s))))))
                     [0..<n])),
      advance s (32 * n))"
proof (induction n arbitrary: s)
  case 0
  show ?case by (simp add: advance_0)
next
  case (Suc n)
  let ?f = "\<lambda>t j. htons_store (demod_word (feed 0 (take 32 (drop (32 * j) (bits t)))))"
  have n: "32 \<le> length (bits s)" using Suc.prems by simp
  have r: "stream_next_bits s 32 = (Some (take_bit 32 (word (advance s 32))), advance s 32)"
    by (rule stream_next_bits_enough [OF n])
  have "length (take 32 (bits s)) = 32" using n by simp
  then have w: "word (advance s 32) = feed 0 (take 32 (bits s))"
    unfolding word_advance by (rule feed_32)
  have n': "32 * n \<le> length (bits (advance s 32))"
    using Suc.prems by (simp add: bits_advance)
  have ih: "demodulate n (advance s 32) =
      (Some (concat (map (?f (advance s 32)) [0..<n])), advance (advance s 32) (32 * n))"
    by (rule Suc.IH [OF n'])
  have d: "?f (advance s 32) j = ?f s (Suc j)" for j
    by (simp add: bits_advance add.commute)
  have m: "map (?f (advance s 32)) [0..<n] = map (?f s \<circ> Suc) [0..<n]"
    by (rule map_cong) (simp_all only: d comp_apply)
  have u: "map (?f s) [0..<Suc n] = ?f s 0 # map (?f s \<circ> Suc) [0..<n]"
    by (simp only: upt_Suc_Cons list.map map_map)
  have a: "advance (advance s 32) (32 * n) = advance s (32 * Suc n)"
    by (simp add: advance_advance)
  have "demodulate (Suc n) s =
      (Some (?f s 0 @ concat (map (?f (advance s 32)) [0..<n])), advance s (32 * Suc n))"
    by (simp only: demodulate.simps r prod.case option.case ih w a) simp
  then show ?case
    by (simp only: m u concat.simps)
qed

lemma demodulate_short:
  "length (bits s) < 32 * n \<Longrightarrow> demodulate n s = (None, advance s (length (bits s)))"
proof (induction n arbitrary: s)
  case 0
  then show ?case by simp
next
  case (Suc n)
  show ?case
  proof (cases "length (bits s) < 32")
    case True
    then show ?thesis
      by (simp add: stream_next_bits_short)
  next
    case False
    then have n: "32 \<le> length (bits s)" by simp
    have r: "stream_next_bits s 32 = (Some (take_bit 32 (word (advance s 32))), advance s 32)"
      by (rule stream_next_bits_enough [OF n])
    have l: "length (bits (advance s 32)) < 32 * n"
      using Suc.prems n by (simp add: bits_advance)
    have "demodulate n (advance s 32) =
        (None, advance (advance s 32) (length (bits (advance s 32))))"
      by (rule Suc.IH [OF l])
    then show ?thesis
      using n by (simp add: r advance_advance bits_advance)
  qed
qed

lemma length_demodulated:
  "length (concat (map (\<lambda>j. htons_store (f j)) [0..<n])) = 2 * n"
  by (induction n) (simp_all add: length_htons_store)

lemma sync_attempt_cases:
  "sync_attempt s =
     (if (ucast (word s) :: u16) \<noteq> 0x4489 then (No_sync, s)
      else if length (bits s) < 32 then (Exhausted, advance s (length (bits s)))
      else if word (advance s 32) \<noteq> 0x552aaaaa then (No_sync, advance s 32)
      else if length (bits s) < 32 + 32 * (6 * 513)
        then (Exhausted, advance s (length (bits s)))
      else (Demodulated (index_offset s - 15)
              (concat (map (\<lambda>j. htons_store (demod_word
                  (feed 0 (take 32 (drop (32 + 32 * j) (bits s)))))) [0..<6 * 513])),
            advance s (32 + 32 * (6 * 513))))"
proof -
  consider (a) "(ucast (word s) :: u16) \<noteq> 0x4489"
    | (b) "(ucast (word s) :: u16) = 0x4489" "length (bits s) < 32"
    | (c) "(ucast (word s) :: u16) = 0x4489" "32 \<le> length (bits s)"
        "word (advance s 32) \<noteq> 0x552aaaaa"
    | (d) "(ucast (word s) :: u16) = 0x4489" "32 \<le> length (bits s)"
        "word (advance s 32) = 0x552aaaaa" "length (bits s) < 32 + 32 * (6 * 513)"
    | (e) "(ucast (word s) :: u16) = 0x4489" "32 \<le> length (bits s)"
        "word (advance s 32) = 0x552aaaaa" "32 + 32 * (6 * 513) \<le> length (bits s)"
    by linarith
  then show ?thesis
  proof cases
    case a
    then show ?thesis by (simp add: sync_attempt_def)
  next
    case b
    then show ?thesis by (simp add: sync_attempt_def stream_next_bits_short)
  next
    case c
    then show ?thesis by (simp add: sync_attempt_def stream_next_bits_enough)
  next
    case d
    have "length (bits (advance s 32)) < 32 * (6 * 513)"
      using d by (simp add: bits_advance)
    then have "demodulate (6 * 513) (advance s 32) =
        (None, advance (advance s 32) (length (bits (advance s 32))))"
      by (rule demodulate_short)
    then show ?thesis
      using d by (simp add: sync_attempt_def stream_next_bits_enough advance_advance bits_advance)
  next
    case e
    have "32 * (6 * 513) \<le> length (bits (advance s 32))"
      using e by (simp add: bits_advance)
    then have "demodulate (6 * 513) (advance s 32) =
        (Some (concat (map (\<lambda>j. htons_store (demod_word
            (feed 0 (take 32 (drop (32 * j) (bits (advance s 32))))))) [0..<6 * 513])),
         advance (advance s 32) (32 * (6 * 513)))"
      by (rule demodulate_enough)
    then show ?thesis
      using e by (simp add: sync_attempt_def stream_next_bits_enough advance_advance bits_advance
          add.commute)
  qed
qed

lemma sync_attempt_Demodulated:
  assumes "fst (sync_attempt s) = Demodulated idx_off raw_dat"
  shows "idx_off = index_offset s - 15"
    and "raw_dat = concat (map (\<lambda>j. htons_store (demod_word
            (feed 0 (take 32 (drop (32 + 32 * j) (bits s)))))) [0..<6 * 513])"
    and "snd (sync_attempt s) = advance s (32 + 32 * (6 * 513))"
    and "(ucast (word s) :: u16) = 0x4489"
    and "word (advance s 32) = 0x552aaaaa"
    and "32 + 32 * (6 * 513) \<le> length (bits s)"
  using assms by (simp_all add: sync_attempt_cases split: if_splits)

lemma nth_demodulated:
  "j < n \<Longrightarrow> ntohs_load (concat (map (\<lambda>j. htons_store (f j)) [0..<n])) j = f j"
  using ntohs_load_words [of j "map f [0..<n]"] by (simp add: comp_def)

lemma bytes_demodulated:
  assumes "j < n"
  shows "take 2 (drop (2 * j) (concat (map (\<lambda>j. htons_store (f j)) [0..<n]))) = htons_store (f j)"
proof -
  have "take (2 * 1) (drop (2 * j) (concat (map htons_store (map f [0..<n])))) =
      concat (map htons_store (take 1 (drop j (map f [0..<n]))))"
    by (simp only: drop_concat_htons take_concat_htons)
  moreover have "take 1 (drop j (map f [0..<n])) = [f j]"
    using assms by (simp add: take_Suc_conv_app_nth drop_map take_map)
  ultimately show ?thesis by (simp add: comp_def)
qed

lemma htons_store_0: "htons_store 0 = [0, 0]"
  by (simp add: htons_store_def)

lemma concat_replicate_pair: "concat (map (\<lambda>j. [a, a]) [0..<n]) = replicate (2 * n) a"
proof (induction n)
  case 0
  show ?case by simp
next
  case (Suc n)
  have "replicate (2 * n) a @ [a, a] = replicate (2 * n) a @ replicate 2 a"
    by (simp add: numeral_2_eq_2)
  also have "\<dots> = replicate (2 * Suc n) a"
    by (simp only: replicate_add [symmetric]) simp
  finally show ?case using Suc by simp
qed

lemma clear_track_words:
  "concat (map (\<lambda>j. htons_store (demod_word
       (feed 0 (take 32 (drop (32 + 32 * j) (bits (clear_track off))))))) [0..<6 * 513]) =
   replicate 6156 0"
proof -
  have "htons_store (demod_word
       (feed 0 (take 32 (drop (32 + 32 * j) (bits (clear_track off)))))) = [0, 0]"
    if "j \<in> set [0..<6 * 513]" for j
  proof -
    have "j < 3078" using that by simp
    then have "take 32 (drop (32 + 32 * j) (bits (clear_track off))) = replicate 32 False"
      by (simp add: clear_track_def length_mark_cells min_def)
    then show ?thesis
      by (simp only: feed_zero_cells demod_word_0 htons_store_0)
  qed
  then have "map (\<lambda>j. htons_store (demod_word
       (feed 0 (take 32 (drop (32 + 32 * j) (bits (clear_track off))))))) [0..<6 * 513] =
      map (\<lambda>j. [0, 0]) [0..<6 * 513]"
    by (intro map_cong) simp_all
  then show ?thesis
    by (simp only: concat_replicate_pair) simp
qed

lemma sync_attempt_clear_track:
  "fst (sync_attempt (clear_track off)) = Demodulated (off - 15) (replicate 6156 0)"
proof -
  have c1: "(ucast (word (clear_track off)) :: u16) = 0x4489"
    by (simp add: clear_track_def)
  have c2: "\<not> length (bits (clear_track off)) < 32"
    by (simp add: clear_track_def length_mark_cells)
  have c3: "word (advance (clear_track off) 32) = 0x552aaaaa"
    by (simp add: word_advance clear_track_def length_mark_cells feed_second_mark)
  have c4: "\<not> length (bits (clear_track off)) < 32 + 32 * (6 * 513)"
    by (simp add: clear_track_def length_mark_cells)
  have c5: "index_offset (clear_track off) = off"
    by (simp add: clear_track_def)
  show ?thesis
    unfolding sync_attempt_cases
    by (simp only: c1 c2 c3 c4 c5 clear_track_words) simp
qed

subsection \<open>The checksum word on the track\<close>

lemma drop_concat_word_emissions:
  "drop (2 * a) (concat (map word_emissions ws)) = concat (map word_emissions (drop a ws))"
proof (induction ws arbitrary: a)
  case Nil
  show ?case by simp
next
  case (Cons x xs)
  show ?case
  proof (cases a)
    case 0
    then show ?thesis by simp
  next
    case (Suc a')
    then show ?thesis
      using Cons.IH [of a'] by (simp add: word_emissions_def)
  qed
qed

lemma take_2_concat_word_emissions:
  "ws \<noteq> [] \<Longrightarrow> take 2 (concat (map word_emissions ws)) = word_emissions (hd ws)"
  by (cases ws) (simp_all add: word_emissions_def)

lemma emitted_checksum_word:
  assumes "i < 6"
  shows "take 2 (drop (2 + 1026 * i) (emitted (lemmings_read_mfm tracknr tbuf h p))) =
     word_emissions (emitted_csum (valid_sectors h) p i)"
proof -
  let ?ws = "track_words (valid_sectors h) p"
  have "drop (2 + 1026 * i) (emitted (lemmings_read_mfm tracknr tbuf h p)) =
      drop (2 * (513 * i)) (concat (map word_emissions ?ws))"
    by (simp add: emitted_lemmings_read_mfm)
  also have "\<dots> = concat (map word_emissions (drop (513 * i) ?ws))"
    by (rule drop_concat_word_emissions)
  finally have "take 2 (drop (2 + 1026 * i) (emitted (lemmings_read_mfm tracknr tbuf h p))) =
      word_emissions (hd (drop (513 * i) ?ws))"
    using assms by (simp add: take_2_concat_word_emissions length_track_words)
  moreover have "hd (drop (513 * i) ?ws) = ?ws ! (513 * i)"
    using assms by (simp add: hd_drop_conv_nth length_track_words)
  ultimately show ?thesis
    using assms by (simp add: track_words_csum)
qed

lemma scan_encoded_valid_blocks:
  "valid_blocks (snd (scan (stream_open (tbuf_cells (lemmings_read_mfm tracknr tbuf h p)))
      (fresh h0))) = take_bit 6 (valid_sectors h)"
proof -
  have "valid_blocks (fresh h0) \<noteq> 63" by (simp add: fresh_def)
  then show ?thesis
    by (simp add: scan_encoded encoded_valid_blocks flip: track_raw_def)
qed

lemma fold_add_sum_list:
  "fold (\<lambda>k c. c + f k) xs (a :: u16) = a + sum_list (map f xs)"
  by (induction xs arbitrary: a) (simp_all add: add.assoc)

lemma sector_sum_sum_list:
  "sector_sum p sec = sum_list (map (\<lambda>k. ntohs_load p (sec + k)) [0..<512])"
  unfolding sector_sum_def by (simp only: fold_add_sum_list) simp

subsection \<open>The scan loop and its history\<close>

lemma scan_log_exhausted: "bits s = [] \<Longrightarrow> scan_log s d = []"
  by (subst scan_log.simps) (simp add: stream_next_bit_Nil)

lemma scan_log_all_valid:
  "bits s = b # bs \<Longrightarrow> valid_blocks d = 63 \<Longrightarrow> scan_log s d = []"
  by (subst scan_log.simps) (simp add: stream_next_bit_Cons)

lemma scan_log_attempt:
  "bits s = b # bs \<Longrightarrow> valid_blocks d \<noteq> 63 \<Longrightarrow>
   scan_log s d =
     Candidate (index_offset s + 1) #
     (case sync_attempt (advance s (Suc 0)) of
        (No_sync, s'') \<Rightarrow> scan_log s'' d
      | (Exhausted, s'') \<Rightarrow> []
      | (Demodulated idx_off raw_dat, s'') \<Rightarrow>
          Attempt idx_off raw_dat # scan_log s'' (validate raw_dat idx_off d))"
  by (subst scan_log.simps) (simp add: stream_next_bit_Cons index_offset_advance)

lemma scan_induct [case_names Nil Full No_sync Exhausted Demodulated]:
  assumes "\<And>s d. bits s = [] \<Longrightarrow> P s d"
    and "\<And>s d b bs. bits s = b # bs \<Longrightarrow> valid_blocks d = 63 \<Longrightarrow> P s d"
    and "\<And>s d b bs s''. bits s = b # bs \<Longrightarrow> valid_blocks d \<noteq> 63 \<Longrightarrow>
           sync_attempt (advance s (Suc 0)) = (No_sync, s'') \<Longrightarrow> P s'' d \<Longrightarrow> P s d"
    and "\<And>s d b bs s''. bits s = b # bs \<Longrightarrow> valid_blocks d \<noteq> 63 \<Longrightarrow>
           sync_attempt (advance s (Suc 0)) = (Exhausted, s'') \<Longrightarrow> P s d"
    and "\<And>s d b bs s'' idx_off raw_dat. bits s = b # bs \<Longrightarrow> valid_blocks d \<noteq> 63 \<Longrightarrow>
           sync_attempt (advance s (Suc 0)) = (Demodulated idx_off raw_dat, s'') \<Longrightarrow>
           P s'' (validate raw_dat idx_off d) \<Longrightarrow> P s d"
  shows "P s d"
proof (induction "length (bits s)" arbitrary: s d rule: less_induct)
  case (less s d)
  show ?case
  proof (cases "bits s")
    case Nil
    then show ?thesis by (rule assms(1))
  next
    case (Cons b bs)
    show ?thesis
    proof (cases "valid_blocks d = 63")
      case True
      with Cons show ?thesis by (rule assms(2))
    next
      case False
      obtain r s'' where sa: "sync_attempt (advance s (Suc 0)) = (r, s'')"
        by (cases "sync_attempt (advance s (Suc 0))")
      have "length (bits s'') \<le> length (bits (advance s (Suc 0)))"
        using sync_attempt_length [of "advance s (Suc 0)"] sa by simp
      then have lt: "length (bits s'') < length (bits s)"
        using Cons by (simp add: bits_advance)
      show ?thesis
      proof (cases r)
        case No_sync
        show ?thesis
          using Cons False sa [unfolded No_sync] less [OF lt] by (rule assms(3))
      next
        case Exhausted
        show ?thesis
          using Cons False sa [unfolded Exhausted] by (rule assms(4))
      next
        case (Demodulated idx_off raw_dat)
        show ?thesis
          using Cons False sa [unfolded Demodulated] less [OF lt] by (rule assms(5))
      qed
    qed
  qed
qed

lemma scan_No_sync:
  "bits s = b # bs \<Longrightarrow> valid_blocks d \<noteq> 63 \<Longrightarrow>
   sync_attempt (advance s (Suc 0)) = (No_sync, s'') \<Longrightarrow>
   scan s d = scan s'' d \<and> scan_log s d = Candidate (index_offset s + 1) # scan_log s'' d"
  by (simp add: scan_attempt scan_log_attempt)

lemma scan_Exhausted:
  "bits s = b # bs \<Longrightarrow> valid_blocks d \<noteq> 63 \<Longrightarrow>
   sync_attempt (advance s (Suc 0)) = (Exhausted, s'') \<Longrightarrow>
   scan s d = (s'', d) \<and> scan_log s d = [Candidate (index_offset s + 1)]"
  by (simp add: scan_attempt scan_log_attempt)

lemma scan_Demodulated:
  "bits s = b # bs \<Longrightarrow> valid_blocks d \<noteq> 63 \<Longrightarrow>
   sync_attempt (advance s (Suc 0)) = (Demodulated idx_off raw_dat, s'') \<Longrightarrow>
   scan s d = scan s'' (validate raw_dat idx_off d) \<and>
   scan_log s d = Candidate (index_offset s + 1) # Attempt idx_off raw_dat
     # scan_log s'' (validate raw_dat idx_off d)"
  by (simp add: scan_attempt scan_log_attempt)

lemma scan_offset:
  "data_bitoff (th (snd (scan s d))) = offset_after (data_bitoff (th d)) (scan_log s d)"
proof (induction s d rule: scan_induct)
  case (Nil s d)
  then show ?case by (simp add: scan_exhausted scan_log_exhausted)
next
  case (Full s d b bs)
  then show ?case by (simp add: scan_all_valid scan_log_all_valid)
next
  case (No_sync s d b bs s'')
  then show ?case by (simp add: scan_No_sync)
next
  case (Exhausted s d b bs s'')
  then show ?case by (simp add: scan_Exhausted)
next
  case (Demodulated s d b bs s'' idx_off raw_dat)
  show ?case
  proof (cases "\<exists>j<6. csum_ok raw_dat j")
    case True
    then have "data_bitoff (th (validate raw_dat idx_off d)) = idx_off"
      by (simp only: validate_th if_True) simp
    then show ?thesis
      using Demodulated True by (simp add: scan_Demodulated cong: conj_cong)
  next
    case False
    then have "data_bitoff (th (validate raw_dat idx_off d)) = data_bitoff (th d)"
      by (simp only: validate_th if_False)
    then show ?thesis
      using Demodulated False by (simp add: scan_Demodulated cong: conj_cong)
  qed
qed

lemma scan_th:
  "th (snd (scan s d)) = (th d)\<lparr>data_bitoff := data_bitoff (th (snd (scan s d)))\<rparr>"
proof (induction s d rule: scan_induct)
  case (Nil s d)
  then show ?case by (simp add: scan_exhausted)
next
  case (Full s d b bs)
  then show ?case by (simp add: scan_all_valid)
next
  case (No_sync s d b bs s'')
  then show ?case by (simp add: scan_No_sync)
next
  case (Exhausted s d b bs s'')
  then show ?case by (simp add: scan_Exhausted)
next
  case (Demodulated s d b bs s'' idx_off raw_dat)
  have "th (snd (scan s d)) =
      (th (validate raw_dat idx_off d))\<lparr>data_bitoff := data_bitoff (th (snd (scan s d)))\<rparr>"
    using Demodulated by (simp add: scan_Demodulated)
  then show ?case
    by (cases "\<exists>j<6. csum_ok raw_dat j") (simp_all only: validate_th if_True if_False, simp_all)
qed

lemma scan_valid_blocks:
  "bit (valid_blocks (snd (scan s d))) i \<longleftrightarrow>
     bit (valid_blocks d) i \<or>
     (\<exists>idx_off raw_dat. Attempt idx_off raw_dat \<in> set (scan_log s d) \<and> i < 6 \<and> csum_ok raw_dat i)"
proof (induction s d rule: scan_induct)
  case (Nil s d)
  then show ?case by (simp add: scan_exhausted scan_log_exhausted)
next
  case (Full s d b bs)
  then show ?case by (simp add: scan_all_valid scan_log_all_valid)
next
  case (No_sync s d b bs s'')
  then show ?case by (simp add: scan_No_sync)
next
  case (Exhausted s d b bs s'')
  then show ?case by (simp add: scan_Exhausted)
next
  case (Demodulated s d b bs s'' idx_off raw_dat)
  then show ?case by (auto simp add: scan_Demodulated validate_valid_blocks)
qed

lemma scan_stream_end:
  "valid_blocks (snd (scan s d)) \<noteq> 63 \<Longrightarrow> bits (fst (scan s d)) = []"
proof (induction s d rule: scan_induct)
  case (Nil s d)
  then show ?case by (simp add: scan_exhausted)
next
  case (Full s d b bs)
  then show ?case by (simp add: scan_all_valid)
next
  case (No_sync s d b bs s'')
  then show ?case by (simp add: scan_No_sync)
next
  case (Exhausted s d b bs s'')
  have "s'' = advance (advance s (Suc 0)) (length (bits (advance s (Suc 0))))"
    using Exhausted(3) by (simp add: sync_attempt_cases split: if_splits)
  then have "bits s'' = []" by (simp add: bits_advance)
  then show ?case using Exhausted by (simp add: scan_Exhausted)
next
  case (Demodulated s d b bs s'' idx_off raw_dat)
  then show ?case by (simp add: scan_Demodulated)
qed

lemma length_Demodulated:
  "sync_attempt s = (Demodulated idx_off raw_dat, s'') \<Longrightarrow> length raw_dat = 6156"
  using sync_attempt_Demodulated(2) [of s idx_off raw_dat]
  by (simp add: length_demodulated)

lemma scan_length:
  "length (block d) = 6144 \<Longrightarrow> length (block (snd (scan s d))) = 6144"
proof (induction s d rule: scan_induct)
  case (Nil s d)
  then show ?case by (simp add: scan_exhausted)
next
  case (Full s d b bs)
  then show ?case by (simp add: scan_all_valid)
next
  case (No_sync s d b bs s'')
  then show ?case by (simp add: scan_No_sync)
next
  case (Exhausted s d b bs s'')
  then show ?case by (simp add: scan_Exhausted)
next
  case (Demodulated s d b bs s'' idx_off raw_dat)
  then show ?case
    by (simp add: scan_Demodulated validate_length length_Demodulated)
qed

lemma scan_slot:
  "length (block d) = 6144 \<Longrightarrow> i < 6 \<Longrightarrow>
   slot (block (snd (scan s d))) i = slot_after i (slot (block d) i) (scan_log s d)"
proof (induction s d rule: scan_induct)
  case (Nil s d)
  then show ?case by (simp add: scan_exhausted scan_log_exhausted)
next
  case (Full s d b bs)
  then show ?case by (simp add: scan_all_valid scan_log_all_valid)
next
  case (No_sync s d b bs s'')
  then show ?case by (simp add: scan_No_sync)
next
  case (Exhausted s d b bs s'')
  then show ?case by (simp add: scan_Exhausted)
next
  case (Demodulated s d b bs s'' idx_off raw_dat)
  have l: "length raw_dat = 6156"
    using Demodulated(3) by (rule length_Demodulated)
  have "slot (block (validate raw_dat idx_off d)) i =
      (if csum_ok raw_dat i then body raw_dat i else slot (block d) i)"
    using Demodulated(5) l Demodulated(6) by (rule validate_slot)
  then show ?case
    using Demodulated l by (simp add: scan_Demodulated validate_length)
qed

lemma scan_fresh_valid_blocks_0:
  "valid_blocks (snd (scan s (fresh h))) = 0 \<longleftrightarrow>
     (\<forall>idx_off raw_dat. Attempt idx_off raw_dat \<in> set (scan_log s (fresh h)) \<longrightarrow>
        \<not> (\<exists>j<6. csum_ok raw_dat j))"
proof
  assume z: "valid_blocks (snd (scan s (fresh h))) = 0"
  show "\<forall>idx_off raw_dat. Attempt idx_off raw_dat \<in> set (scan_log s (fresh h)) \<longrightarrow>
      \<not> (\<exists>j<6. csum_ok raw_dat j)"
  proof (intro allI impI notI)
    fix idx_off raw_dat
    assume a: "Attempt idx_off raw_dat \<in> set (scan_log s (fresh h))"
      and "\<exists>j<6. csum_ok raw_dat j"
    then obtain j where "j < 6" "csum_ok raw_dat j" by blast
    with a have "bit (valid_blocks (snd (scan s (fresh h)))) j"
      unfolding scan_valid_blocks by blast
    with z show False by simp
  qed
next
  assume n: "\<forall>idx_off raw_dat. Attempt idx_off raw_dat \<in> set (scan_log s (fresh h)) \<longrightarrow>
      \<not> (\<exists>j<6. csum_ok raw_dat j)"
  show "valid_blocks (snd (scan s (fresh h))) = 0"
  proof (rule bit_eqI)
    fix i
    have "\<not> bit (valid_blocks (snd (scan s (fresh h)))) i"
      unfolding scan_valid_blocks using n by (auto simp add: fresh_def)
    then show "bit (valid_blocks (snd (scan s (fresh h)))) i \<longleftrightarrow> bit (0 :: u32) i"
      by simp
  qed
qed

lemma offset_after_unchanged:
  "\<forall>idx_off raw_dat. Attempt idx_off raw_dat \<in> set es \<longrightarrow> \<not> (\<exists>j<6. csum_ok raw_dat j) \<Longrightarrow>
   offset_after off es = off"
  by (induction off es rule: offset_after.induct) (auto cong: conj_cong)

lemma lemmings_write_mfm_None:
  "fst (lemmings_write_mfm tracknr h s) = None \<longleftrightarrow> valid_blocks (snd (scan s (fresh h))) = 0"
  by (cases "scan s (fresh h)") (simp add: lemmings_write_mfm_eq finish_def)

lemma scan_log_quiet:
  "quiet (word s) (take n (bits s)) \<Longrightarrow> n \<le> length (bits s) \<Longrightarrow> valid_blocks d \<noteq> 63 \<Longrightarrow>
   scan_log s d =
     map (\<lambda>k. Candidate (index_offset s + of_nat k)) [1..<Suc n] @ scan_log (advance s n) d"
proof (induction n arbitrary: s)
  case 0
  show ?case by (simp add: advance_0)
next
  case (Suc n)
  then obtain b bs where bs: "bits s = b # bs" by (cases "bits s") auto
  have w1: "word (advance s (Suc 0)) = feed (word s) [b]"
    by (simp add: word_advance bs)
  have q: "(ucast (word (advance s (Suc 0))) :: u16) \<noteq> 0x4489"
    and q': "quiet (word (advance s (Suc 0))) (take n (bits (advance s (Suc 0))))"
    using Suc.prems(1) by (simp_all add: bs w1 bits_advance del: feed.simps)
  have n: "n \<le> length (bits (advance s (Suc 0)))"
    using Suc.prems(2) by (simp add: bits_advance bs)
  have 1: "scan_log s d = Candidate (index_offset s + 1) # scan_log (advance s (Suc 0)) d"
    by (simp add: scan_log_attempt [OF bs Suc.prems(3)] sync_attempt_no_mark [OF q])
  have 2: "scan_log (advance s (Suc 0)) d =
      map (\<lambda>k. Candidate (index_offset (advance s (Suc 0)) + of_nat k)) [1..<Suc n]
      @ scan_log (advance (advance s (Suc 0)) n) d"
    by (rule Suc.IH [OF q' n Suc.prems(3)])
  have 3: "map (\<lambda>k. Candidate (index_offset s + of_nat k)) [1..<Suc (Suc n)] =
      Candidate (index_offset s + 1)
      # map (\<lambda>k. Candidate (index_offset (advance s (Suc 0)) + of_nat k)) [1..<Suc n]"
  proof -
    have "[1..<Suc (Suc n)] = 1 # map Suc [1..<Suc n]"
      by (simp add: upt_conv_Cons map_Suc_upt del: upt_Suc)
    then show ?thesis
      by (simp add: index_offset_advance comp_def add.assoc del: upt_Suc)
  qed
  show ?case
    by (simp only: 1 2 3 advance_advance append_Cons) simp
qed

lemma offset_after_append:
  "offset_after off (es1 @ es2) = offset_after (offset_after off es1) es2"
  by (induction off es1 rule: offset_after.induct) simp_all

lemma slot_after_append:
  "slot_after j b (es1 @ es2) = slot_after j (slot_after j b es1) es2"
  by (induction j b es1 rule: slot_after.induct) simp_all

lemma slot_after_unchanged:
  "\<forall>idx_off raw_dat. Attempt idx_off raw_dat \<in> set es \<longrightarrow> \<not> csum_ok raw_dat j \<Longrightarrow>
   slot_after j b es = b"
  by (induction j b es rule: slot_after.induct) auto

lemma stream_next_bit_Some:
  "stream_next_bit s = (Some b, s1) \<Longrightarrow> (\<exists>bs. bits s = b # bs) \<and> s1 = advance s (Suc 0)"
  by (cases "bits s") (auto simp add: stream_next_bit_Nil stream_next_bit_Cons)

lemma stream_next_bits_Some:
  "stream_next_bits s n = (Some v, s2) \<Longrightarrow> n \<le> length (bits s) \<and> s2 = advance s n"
  by (cases "n \<le> length (bits s)") (simp_all add: stream_next_bits_enough stream_next_bits_short)

lemma sync_attempt_advance:
  "\<exists>n\<le>length (bits s). snd (sync_attempt s) = advance s n"
proof -
  have "snd (sync_attempt s) = advance s 0 \<or> snd (sync_attempt s) = advance s (length (bits s))
      \<or> (32 \<le> length (bits s) \<and> snd (sync_attempt s) = advance s 32)
      \<or> (32 + 32 * (6 * 513) \<le> length (bits s) \<and>
          snd (sync_attempt s) = advance s (32 + 32 * (6 * 513)))"
    by (simp add: sync_attempt_cases advance_0)
  then show ?thesis by (metis le0 order_refl)
qed

lemma candidate_range:
  "Candidate c \<in> set (scan_log s d) \<Longrightarrow>
   \<exists>k. 1 \<le> k \<and> k \<le> length (bits s) \<and> c = index_offset s + of_nat k"
proof (induction s d rule: scan_induct)
  case (Nil s d)
  then show ?case by (simp add: scan_log_exhausted)
next
  case (Full s d b bs)
  then show ?case by (simp add: scan_log_all_valid)
next
  case (No_sync s d b bs s'')
  obtain n where n: "n \<le> length (bits (advance s (Suc 0)))" "s'' = advance s (Suc n)"
    using sync_attempt_advance [of "advance s (Suc 0)"] No_sync(3) by (auto simp add: advance_advance)
  have "c = index_offset s + 1 \<or> Candidate c \<in> set (scan_log s'' d)"
    using No_sync(1,2,3,5) by (simp add: scan_No_sync)
  then show ?case
  proof
    assume "c = index_offset s + 1"
    then show ?thesis using No_sync(1) by (intro exI [of _ 1]) simp
  next
    assume "Candidate c \<in> set (scan_log s'' d)"
    then obtain k where k: "1 \<le> k" "k \<le> length (bits s'')" "c = index_offset s'' + of_nat k"
      using No_sync(4) by blast
    then show ?thesis
      using n No_sync(1)
      by (intro exI [of _ "Suc n + k"]) (simp add: bits_advance index_offset_advance)
  qed
next
  case (Exhausted s d b bs s'')
  then show ?case by (intro exI [of _ 1]) (simp add: scan_Exhausted)
next
  case (Demodulated s d b bs s'' idx_off raw_dat)
  obtain n where n: "n \<le> length (bits (advance s (Suc 0)))" "s'' = advance s (Suc n)"
    using sync_attempt_advance [of "advance s (Suc 0)"] Demodulated(3)
    by (auto simp add: advance_advance)
  have "c = index_offset s + 1 \<or> Candidate c \<in> set (scan_log s'' (validate raw_dat idx_off d))"
    using Demodulated(1,2,3,5) by (simp add: scan_Demodulated)
  then show ?case
  proof
    assume "c = index_offset s + 1"
    then show ?thesis using Demodulated(1) by (intro exI [of _ 1]) simp
  next
    assume "Candidate c \<in> set (scan_log s'' (validate raw_dat idx_off d))"
    then obtain k where k: "1 \<le> k" "k \<le> length (bits s'')" "c = index_offset s'' + of_nat k"
      using Demodulated(4) by blast
    then show ?thesis
      using n Demodulated(1)
      by (intro exI [of _ "Suc n + k"]) (simp add: bits_advance index_offset_advance)
  qed
qed

lemma of_nat_u32_neq:
  "j < k \<Longrightarrow> k < 2 ^ 32 \<Longrightarrow> (of_nat j :: u32) \<noteq> of_nat k"
  by (simp add: word_of_nat_eq_iff take_bit_nat_eq_self)

subsection \<open>A mark word with nothing behind it\<close>

lemma first_mark_cells: "raw_cells 16 0x4489 = take 16 mark_cells"
  by (simp add: raw_cells_def mark_cells_def upt_16)

lemma scan_log_false_mark:
  "scan_log (stream_open (raw_cells 16 0x4489 @ replicate 33 False)) (fresh blank_header) =
     map (\<lambda>k. Candidate (of_nat k)) [1..<17] @ [Candidate 49]"
proof -
  define s0 where "s0 = stream_open (raw_cells 16 0x4489 @ replicate 33 False)"
  define d where "d = fresh blank_header"
  have d: "valid_blocks d \<noteq> 63" by (simp add: d_def fresh_def)
  have b0: "bits s0 = take 16 mark_cells @ replicate 33 False"
    by (simp add: s0_def stream_open_def first_mark_cells)
  have w0: "word s0 = 0" and i0: "index_offset s0 = 0"
    by (simp_all add: s0_def stream_open_def)
  have 1: "scan_log s0 d =
      map (\<lambda>k. Candidate (index_offset s0 + of_nat k)) [1..<Suc 15] @ scan_log (advance s0 15) d"
    by (rule scan_log_quiet) (simp_all add: b0 w0 length_mark_cells quiet_marks d)
  have "bits (advance s0 15) = drop 15 (take 16 mark_cells) @ replicate 33 False"
    by (simp add: bits_advance b0 length_mark_cells)
  then obtain b bs where bs: "bits (advance s0 15) = b # bs"
    by (simp add: mark_cells_def)
  have a16: "advance (advance s0 15) (Suc 0) = advance s0 16"
    by (simp add: advance_advance)
  have m1: "(ucast (word (advance s0 16)) :: u16) = 0x4489"
    by (simp add: word_advance b0 w0 length_mark_cells feed_first_mark)
  have l16: "32 \<le> length (bits (advance s0 16))"
    by (simp add: bits_advance b0 length_mark_cells)
  have "word (advance (advance s0 16) 32) = 0"
    by (simp add: word_advance bits_advance b0 length_mark_cells feed_zero_cells)
  then have m2: "word (advance (advance s0 16) 32) \<noteq> 0x552aaaaa" by simp
  have sa: "sync_attempt (advance s0 16) = (No_sync, advance s0 48)"
    using sync_attempt_second_mark_differs [OF m1 l16 m2] by (simp add: advance_advance)
  have io: "index_offset (advance s0 15) + 1 = 16" "index_offset (advance s0 48) + 1 = 49"
    by (simp_all add: index_offset_advance i0)
  have 2: "scan_log (advance s0 15) d = Candidate 16 # scan_log (advance s0 48) d"
    by (simp add: scan_log_attempt [OF bs d] a16 sa io)
  have b48: "bits (advance s0 48) = [False]"
    by (simp add: bits_advance b0 length_mark_cells)
  have "word (advance s0 49) = feed 0 (take 16 mark_cells @ replicate 33 False)"
    by (simp add: word_advance b0 w0 length_mark_cells)
  also have "\<dots> = feed (feed (feed 0 (take 16 mark_cells)) (replicate 32 False)) [False]"
    using replicate_add [of 32 1 False] by (simp add: feed_append)
  also have "\<dots> = 0"
    by (simp only: feed_zero_cells) simp
  finally have w49: "word (advance s0 49) = 0" .
  have a49: "advance (advance s0 48) (Suc 0) = advance s0 49"
    by (simp add: advance_advance)
  have m3: "(ucast (word (advance (advance s0 48) (Suc 0))) :: u16) \<noteq> 0x4489"
    unfolding a49 w49 by simp
  have e: "bits (advance (advance s0 48) (Suc 0)) = []"
    unfolding bits_advance [of "advance s0 48" "Suc 0"] b48 by simp
  have 3: "scan_log (advance s0 48) d = [Candidate 49]"
    by (simp add: scan_log_attempt [OF b48 d] sync_attempt_no_mark [OF m3]
          scan_log_exhausted [OF e] io)
  have 4: "[1..<17] = [1..<16] @ [16]"
    by (simp add: upt_rec)
  show ?thesis
    unfolding s0_def [symmetric] d_def [symmetric]
    by (simp only: 1 2 3 4 i0) simp
qed

subsection \<open>Two copies of a track\<close>

lemma low16_feed:
  "length bs = 16 \<Longrightarrow> (ucast (feed w bs) :: u16) = ucast (feed 0 bs)"
  by (rule bit_word_eqI) (simp add: bit_ucast_iff bit_feed)

lemma scan_track:
  assumes d: "valid_blocks d \<noteq> 63"
    and b: "bits s = mark_cells @ modulate False (concat (map word_emissions ws)) @ rest"
    and lw: "length ws = 3078"
    and q: "quiet (word s) (take 15 mark_cells)"
  shows "scan s d =
      scan (advance s 98544) (validate (concat (map htons_store ws)) (index_offset s + 1) d) \<and>
    scan_log s d =
      map (\<lambda>k. Candidate (index_offset s + of_nat k)) [1..<17]
      @ Attempt (index_offset s + 1) (concat (map htons_store ws))
      # scan_log (advance s 98544) (validate (concat (map htons_store ws)) (index_offset s + 1) d)"
proof -
  define dat where "dat = modulate False (concat (map word_emissions ws))"
  have ld: "length dat = 98496"
    by (simp add: dat_def length_modulate_words lw)
  have b0: "bits s = mark_cells @ dat @ rest"
    using b by (simp add: dat_def)
  have q': "quiet (word s) (take 15 (bits s))"
    using q by (simp add: b0 length_mark_cells)
  have n15: "15 \<le> length (bits s)"
    by (simp add: b0 length_mark_cells)
  have 1: "scan s d = scan (advance s 15) d"
    by (rule scan_quiet [OF q' n15 d])
  have l1: "scan_log s d =
      map (\<lambda>k. Candidate (index_offset s + of_nat k)) [1..<Suc 15] @ scan_log (advance s 15) d"
    by (rule scan_log_quiet [OF q' n15 d])
  have "bits (advance s 15) = drop 15 mark_cells @ dat @ rest"
    by (simp add: bits_advance b0 length_mark_cells)
  then obtain c cs where cs: "bits (advance s 15) = c # cs"
    by (simp add: mark_cells_def)
  have a16: "advance (advance s 15) (Suc 0) = advance s 16"
    by (simp add: advance_advance)
  have "word (advance s 16) = feed (word s) (take 16 mark_cells)"
    by (simp add: word_advance b0 length_mark_cells)
  moreover have "(ucast (feed (word s) (take 16 mark_cells)) :: u16) =
      ucast (feed 0 (take 16 mark_cells))"
    by (rule low16_feed) (simp add: length_mark_cells)
  ultimately have m1: "(ucast (word (advance s 16)) :: u16) = 0x4489"
    by (simp add: feed_first_mark)
  have l16: "32 \<le> length (bits (advance s 16))"
    by (simp add: bits_advance b0 length_mark_cells)
  have m2: "word (advance (advance s 16) 32) = 0x552aaaaa"
    by (simp add: word_advance bits_advance b0 length_mark_cells feed_second_mark)
  have b48: "bits (advance (advance s 16) 32) = modulate False (concat (map word_emissions ws)) @ rest"
    by (simp add: bits_advance b0 length_mark_cells dat_def)
  have dm: "demodulate (6 * 513) (advance (advance s 16) 32) =
      (Some (concat (map htons_store ws)), advance s 98544)"
    using demodulate_words [OF b48] by (simp add: lw advance_advance)
  have sa: "sync_attempt (advance s 16) =
      (Demodulated (index_offset (advance s 16) - 15) (concat (map htons_store ws)), advance s 98544)"
    by (rule sync_attempt_demodulated [OF m1 l16 m2 dm])
  have io: "index_offset (advance s 16) - 15 = index_offset s + 1"
    "index_offset (advance s 15) + 1 = index_offset s + 16"
    by (simp_all add: index_offset_advance)
  have 2: "scan (advance s 15) d =
      scan (advance s 98544) (validate (concat (map htons_store ws)) (index_offset s + 1) d)"
    by (simp add: scan_attempt [OF cs d] a16 sa io)
  have l2: "scan_log (advance s 15) d =
      Candidate (index_offset s + 16) # Attempt (index_offset s + 1) (concat (map htons_store ws))
      # scan_log (advance s 98544) (validate (concat (map htons_store ws)) (index_offset s + 1) d)"
    by (simp add: scan_log_attempt [OF cs d] a16 sa io)
  have 4: "[1..<17] = [1..<16] @ [16]"
    by (simp add: upt_rec)
  show ?thesis
    by (simp only: 1 2 l1 l2 4) simp
qed

lemma modulate_words_snoc:
  "modulate prev (concat (map word_emissions (xs @ [x]))) =
     modulate prev (concat (map word_emissions xs))
     @ word_cells (if xs = [] then prev else bit (last xs) 0) x"
proof (induction xs arbitrary: prev)
  case Nil
  show ?case
    using modulate_words_Cons [of prev x "[]"] by simp
next
  case (Cons y ys)
  have "modulate prev (concat (map word_emissions ((y # ys) @ [x]))) =
      word_cells prev y @ modulate (bit y 0) (concat (map word_emissions (ys @ [x])))"
    using modulate_words_Cons [of prev y "ys @ [x]"] by simp
  also have "\<dots> = word_cells prev y @ modulate (bit y 0) (concat (map word_emissions ys))
      @ word_cells (if ys = [] then bit y 0 else bit (last ys) 0) x"
    by (simp only: Cons.IH)
  also have "\<dots> = modulate prev (concat (map word_emissions (y # ys)))
      @ word_cells (if y # ys = [] then prev else bit (last (y # ys)) 0) x"
    by (simp only: modulate_words_Cons) simp
  finally show ?case .
qed

lemma feed_last_32: "length cs = 32 \<Longrightarrow> feed w (bs @ cs) = feed 0 cs"
  unfolding feed_append by (rule feed_32)

lemma ntohs_load_zeros: "2 * k + 1 < n \<Longrightarrow> ntohs_load (replicate n 0) k = 0"
  by (simp add: ntohs_load_def)

lemma word_after_zero_track:
  assumes "bits s = mark_cells @ modulate False (concat (map word_emissions
      (track_words valid (replicate 6144 0)))) @ rest"
  shows "word (advance s 98544) = 0xAAAAAAAA"
proof -
  let ?ws = "track_words valid (replicate 6144 0)"
  have l: "length ?ws = 3078" by (rule length_track_words)
  have a: "?ws ! 3077 = 0"
    using track_words_body [of 5 511 valid "replicate 6144 0"] by (simp add: ntohs_load_zeros)
  have b: "?ws ! 3076 = 0"
    using track_words_body [of 5 510 valid "replicate 6144 0"] by (simp add: ntohs_load_zeros)
  have ne: "?ws \<noteq> []" using l by auto
  have ne': "butlast ?ws \<noteq> []"
  proof
    assume "butlast ?ws = []"
    then have "length (butlast ?ws) = 0" by simp
    then show False using l by simp
  qed
  have "?ws = butlast ?ws @ [last ?ws]"
    using ne by simp
  moreover have "last ?ws = 0"
    using l a ne by (simp add: last_conv_nth)
  moreover note ne'
  moreover have "last (butlast ?ws) = 0"
    using l b ne' by (simp add: last_conv_nth nth_butlast)
  ultimately have "modulate False (concat (map word_emissions ?ws)) =
      modulate False (concat (map word_emissions (butlast ?ws))) @ word_cells False 0"
    using modulate_words_snoc [of False "butlast ?ws" 0] by simp
  then have "take 98544 (bits s) =
      (mark_cells @ modulate False (concat (map word_emissions (butlast ?ws)))) @ word_cells False 0"
    using assms length_modulate_words [of False ?ws] l
    by (simp add: length_mark_cells)
  then have "word (advance s 98544) = feed 0 (word_cells False 0)"
    unfolding word_advance by (simp only: feed_last_32 [OF length_word_cells])
  also have "\<dots> = 0xAAAAAAAA"
    by (simp add: word_cells_def)
  finally show ?thesis .
qed

lemma bits_encoded_stream:
  "bits (encoded_stream valid p) =
     mark_cells @ modulate False (concat (map word_emissions (track_words valid p)))"
  by (simp add: encoded_stream_def stream_open_def tbuf_cells_lemmings_read_mfm)

lemma quiet_after_zero_track: "quiet 0xAAAAAAAA (take 15 mark_cells)"
  by (simp add: mark_cells_def)

lemma scan_two_copies:
  "scan two_copies (fresh h0) =
     (advance two_copies 197088,
      validate (track_raw 63 (replicate 6144 255)) 98545
        (validate (track_raw 31 (replicate 6144 0)) 1 (fresh h0))) \<and>
   scan_log two_copies (fresh h0) =
     map (\<lambda>k. Candidate (of_nat k)) [1..<17]
     @ Attempt 1 (track_raw 31 (replicate 6144 0))
     # map (\<lambda>k. Candidate (98544 + of_nat k)) [1..<17]
     @ [Attempt 98545 (track_raw 63 (replicate 6144 255))]"
proof -
  let ?ws1 = "track_words 31 (replicate 6144 0)"
  let ?ws2 = "track_words 63 (replicate 6144 255)"
  define s0 where "s0 = two_copies"
  define d0 where "d0 = fresh h0"
  define d1 where "d1 = validate (track_raw 31 (replicate 6144 0)) 1 d0"
  define d2 where "d2 = validate (track_raw 63 (replicate 6144 255)) 98545 d1"
  define s1 where "s1 = advance s0 98544"
  have b0: "bits s0 = mark_cells @ modulate False (concat (map word_emissions ?ws1))
      @ (mark_cells @ modulate False (concat (map word_emissions ?ws2)))"
    by (simp add: s0_def two_copies_def stream_open_def bits_encoded_stream)
  have w0: "word s0 = 0" and i0: "index_offset s0 = 0"
    by (simp_all add: s0_def two_copies_def stream_open_def)
  have v0: "valid_blocks d0 \<noteq> 63" by (simp add: d0_def fresh_def)
  have q0: "quiet (word s0) (take 15 mark_cells)"
    unfolding w0 by (rule quiet_marks)
  have t1: "scan s0 d0 = scan s1 d1 \<and>
      scan_log s0 d0 = map (\<lambda>k. Candidate (of_nat k)) [1..<17]
        @ Attempt 1 (track_raw 31 (replicate 6144 0)) # scan_log s1 d1"
    using scan_track [OF v0 b0 length_track_words q0]
    by (simp add: i0 s1_def d1_def track_raw_def)
  have "valid_blocks d1 = take_bit 6 31"
    unfolding d1_def d0_def by (rule encoded_valid_blocks)
  then have v1: "valid_blocks d1 \<noteq> 63" by simp
  have l1: "length (modulate False (concat (map word_emissions ?ws1))) = 98496"
    by (simp add: length_modulate_words length_track_words)
  have b1: "bits s1 = mark_cells @ modulate False (concat (map word_emissions ?ws2)) @ []"
    by (simp add: s1_def bits_advance b0 length_mark_cells l1)
  have w1: "word s1 = 0xAAAAAAAA"
    unfolding s1_def by (rule word_after_zero_track [OF b0])
  have i1: "index_offset s1 = 98544"
    by (simp add: s1_def index_offset_advance i0)
  have q1: "quiet (word s1) (take 15 mark_cells)"
    unfolding w1 by (rule quiet_after_zero_track)
  have a2: "advance s1 98544 = advance s0 197088"
    by (simp add: s1_def advance_advance)
  have t2: "scan s1 d1 = scan (advance s0 197088) d2 \<and>
      scan_log s1 d1 = map (\<lambda>k. Candidate (98544 + of_nat k)) [1..<17]
        @ Attempt 98545 (track_raw 63 (replicate 6144 255)) # scan_log (advance s0 197088) d2"
    using scan_track [OF v1 b1 length_track_words q1]
    by (simp add: i1 a2 d2_def track_raw_def)
  have l2: "length (modulate False (concat (map word_emissions ?ws2))) = 98496"
    by (simp add: length_modulate_words length_track_words)
  have e: "bits (advance s0 197088) = []"
    by (simp add: bits_advance b0 length_mark_cells l1 l2)
  have t3: "scan (advance s0 197088) d2 = (advance s0 197088, d2)"
    "scan_log (advance s0 197088) d2 = []"
    by (simp_all add: scan_exhausted [OF e] scan_log_exhausted [OF e])
  show ?thesis
    using t1 t2 t3 unfolding s0_def d0_def d1_def d2_def by simp
qed

lemma csum_ok_first_copy:
  "csum_ok (track_raw 31 (replicate 6144 0)) 0" "\<not> csum_ok (track_raw 31 (replicate 6144 0)) 5"
  using csum_ok_track_raw [of 0 31 "replicate 6144 0"] csum_ok_track_raw [of 5 31 "replicate 6144 0"]
  by simp_all

lemma csum_ok_second_copy:
  "csum_ok (track_raw 63 (replicate 6144 255)) 0" "csum_ok (track_raw 63 (replicate 6144 255)) 5"
  using csum_ok_track_raw [of 0 63 "replicate 6144 255"]
    csum_ok_track_raw [of 5 63 "replicate 6144 255"]
  by simp_all

section \<open>The claims\<close>

subsection \<open>C1: encoding, then decoding\<close>

text \<open>
  C1, as amended. Take any buffer \<open>p\<close> of 6 * 1024 bytes and any 6-bit validity mask, and
  decode a stream opened on the cells that the encoder writes for \<open>p\<close> and the mask. When
  the mask is not empty, the decoder returns a buffer, not \<open>NULL\<close>; the mask stored in the
  decoder's header is the encoder's mask; and slot \<open>j\<close> of the buffer holds sector \<open>j\<close> of
  \<open>p\<close> where bit \<open>j\<close> of the mask is set and 256 copies of the tag \<open>NLEM\<close> where it is
  clear. When the mask is empty, the decoder returns \<open>NULL\<close> and leaves its header as it
  was: no buffer and no mask.
\<close>

theorem roundtrip_unless_mask_empty:
  assumes "length p = 6 * 1024" and "valid_sectors h < 64"
  shows "case lemmings_write_mfm tracknr' h0
             (stream_open (tbuf_cells (lemmings_read_mfm tracknr tbuf h p))) of
           (None, h', s') \<Rightarrow> valid_sectors h = 0 \<and> h' = h0
         | (Some blk, h', s') \<Rightarrow>
             valid_sectors h \<noteq> 0 \<and> valid_sectors h' = valid_sectors h \<and>
             (\<forall>j<6. slot blk j = (if bit (valid_sectors h) j then slot p j else sentinel_sector))"
proof -
  have v: "take_bit 6 (valid_sectors h) = valid_sectors h"
    using assms(2) less_mask_eq [of "valid_sectors h" 6] by (simp add: take_bit_eq_mask)
  have l: "length p = 6144" using assms(1) by simp
  have t: "valid_sectors h = 0 \<Longrightarrow>
      th (validate (track_raw (valid_sectors h) p) 1 (fresh h0)) = h0"
    by (simp add: validate_th csum_ok_track_raw fresh_def cong: conj_cong)
  show ?thesis
    using encoded_slot [OF l, of _ "valid_sectors h" 1 h0] t
    by (simp add: decode_encoded finish_def encoded_valid_blocks v)
qed

text \<open>
  The amended C1 at a buffer of zero bytes with sectors 0, 2 and 4 valid, and at a buffer
  of bytes 255 with the empty mask.
\<close>

theorem roundtrip_unless_mask_empty_witness:
  "length (replicate 6144 (0 :: u8)) = 6 * 1024 \<and> (21 :: u32) < 64 \<and>
   length (replicate 6144 (255 :: u8)) = 6 * 1024 \<and> (0 :: u32) < 64 \<and>
   (case lemmings_write_mfm 0 blank_header (encoded_stream 21 (replicate 6144 0)) of
      (None, h', s') \<Rightarrow> False
    | (Some blk, h', s') \<Rightarrow>
        valid_sectors h' = 21 \<and>
        slot blk 0 = slot (replicate 6144 0) 0 \<and> slot blk 1 = sentinel_sector) \<and>
   fst (lemmings_write_mfm 0 blank_header (encoded_stream 0 (replicate 6144 255))) = None"
proof -
  let ?h = "\<lparr>data_bitoff = 0, total_bits = 100000, bytes_per_sector = 1024,
      nr_sectors = 6, len = 6144, valid_sectors = (21 :: u32)\<rparr>"
  let ?e = "\<lparr>data_bitoff = 0, total_bits = 100000, bytes_per_sector = 1024,
      nr_sectors = 6, len = 6144, valid_sectors = (0 :: u32)\<rparr>"
  have a: "length (replicate 6144 (0 :: u8)) = 6 * 1024" by simp
  have b: "valid_sectors ?h < 64" by simp
  have a': "length (replicate 6144 (255 :: u8)) = 6 * 1024" by simp
  have b': "valid_sectors ?e < 64" by simp
  show ?thesis
    unfolding encoded_stream_def
    using roundtrip_unless_mask_empty [OF a b, of blank_header 0 0
        "\<lparr>start = 0, len = 0, emitted = [], sealed = False\<rparr>"]
      roundtrip_unless_mask_empty [OF a' b', of blank_header 0 0
        "\<lparr>start = 0, len = 0, emitted = [], sealed = False\<rparr>"]
    by (auto split: prod.splits option.splits)
qed

text \<open>
  C1 as stated fails for the empty mask: the encoder inverts all six checksums, no sector
  validates, and the decoder returns \<open>NULL\<close> instead of a buffer of tags with an empty
  mask.
\<close>

theorem roundtrip_no_sector_valid_counterexample:
  "fst (lemmings_write_mfm 0 blank_header (encoded_stream 0 (replicate 6144 0))) = None"
  unfolding encoded_stream_def
  by (simp add: decode_encoded finish_def encoded_valid_blocks)

subsection \<open>C2: the inverted checksum\<close>

text \<open>
  C2. For a buffer \<open>p\<close> and a sector \<open>i\<close> whose validity bit is clear, let \<open>c\<close> be the
  wraparound sum of the 512 words of sector \<open>i\<close>. The two emissions of the encoder for
  the sector's checksum word, at places \<open>2 + 1026 * i\<close> and the next, carry the bitwise
  complement of \<open>c\<close>; the complement differs from \<open>c\<close>, whatever the 512 words are; and a
  decoder that scans the stream of the encoder's cells leaves bit \<open>i\<close> of its validity
  mask clear.
\<close>

theorem inverted_checksum_never_matches:
  assumes "length p = 6 * 1024" and "i < 6" and "\<not> bit (valid_sectors h) i"
  shows "let c = fold (\<lambda>j c. c + ntohs_load p (512 * i + j)) [0..<512] (0 :: u16) in
     take 2 (drop (2 + 1026 * i) (emitted (lemmings_read_mfm tracknr tbuf h p))) =
       [\<lparr>em_speed = DEFAULT_SPEED, em_type = TBUFDAT_even, em_bits = 16, em_x = ucast (NOT c)\<rparr>,
        \<lparr>em_speed = DEFAULT_SPEED, em_type = TBUFDAT_odd, em_bits = 16, em_x = ucast (NOT c)\<rparr>] \<and>
     NOT c \<noteq> c \<and>
     \<not> bit (valid_blocks (snd (scan
            (stream_open (tbuf_cells (lemmings_read_mfm tracknr tbuf h p))) (fresh h0)))) i"
proof -
  have "valid_sectors h AND push_bit i 1 = 0"
    using assms(3) by (simp add: and_exp_eq_0_iff_not_bit)
  then have "emitted_csum (valid_sectors h) p i =
      NOT (fold (\<lambda>j c. c + ntohs_load p (512 * i + j)) [0..<512] 0)"
    by (simp add: emitted_csum_def Let_def)
  then show ?thesis
    using assms(3) emitted_checksum_word [OF assms(2), of tracknr tbuf h p]
    by (simp add: Let_def word_emissions_def not_word_neq scan_encoded_valid_blocks bit_take_bit_iff)
qed

text \<open>C2 at a buffer of zero bytes, for sector 1 of the mask with sectors 0, 2 and 4.\<close>

theorem inverted_checksum_never_matches_witness:
  "length (replicate 6144 (0 :: u8)) = 6 * 1024 \<and> (1 :: nat) < 6 \<and> \<not> bit (21 :: u32) (1 :: nat) \<and>
   \<not> bit (valid_blocks (snd (scan (encoded_stream 21 (replicate 6144 0))
       (fresh blank_header)))) (1 :: nat)"
proof -
  let ?h = "\<lparr>data_bitoff = 0, total_bits = 100000, bytes_per_sector = 1024,
      nr_sectors = 6, len = 6144, valid_sectors = (21 :: u32)\<rparr>"
  have a: "length (replicate 6144 (0 :: u8)) = 6 * 1024" by simp
  have b: "(1 :: nat) < 6" by simp
  have c: "\<not> bit (valid_sectors ?h) (1 :: nat)" by simp
  show ?thesis
    unfolding encoded_stream_def
    using a b c inverted_checksum_never_matches [OF a b c, of 0
        "\<lparr>start = 0, len = 0, emitted = [], sealed = False\<rparr>" blank_header]
    by (simp add: Let_def)
qed

subsection \<open>C3: the scan after a second mark word that differs\<close>

text \<open>
  C3, as amended. Take a pass of the scan loop that fetches a bit and is not stopped by
  a full validity mask. When the low 16 bits of the accumulated word are not the mark
  word, the scan goes on from the next bit: one bit at a time. When they are the mark
  word and the 32 bits fetched next are not the second mark word, the scan goes on from
  the bit after those 32 bits: the position of the mark word is the only one tested in
  this pass, and none of the 32 bit positions fetched for the comparison is tested as a
  candidate, in this pass or in a later one.
\<close>

theorem scan_resumes_after_the_bits_read:
  assumes "stream_next_bit s = (Some b, s1)" and "valid_blocks d \<noteq> push_bit 6 1 - 1"
  shows "((ucast (word s1) :: u16) \<noteq> 0x4489 \<longrightarrow>
            scan s d = scan s1 d \<and> scan_log s d = Candidate (index_offset s1) # scan_log s1 d) \<and>
         ((ucast (word s1) :: u16) = 0x4489 \<and> stream_next_bits s1 32 = (Some v, s2) \<and>
          word s2 \<noteq> 0x552aaaaa \<and> length (bits s) < 2 ^ 32 \<longrightarrow>
            scan s d = scan s2 d \<and> scan_log s d = Candidate (index_offset s1) # scan_log s2 d \<and>
            index_offset s2 = index_offset s1 + 32 \<and>
            (\<forall>k\<in>{1..32}. Candidate (index_offset s1 + of_nat k) \<notin> set (scan_log s d)))"
proof -
  obtain bs where bs: "bits s = b # bs" and s1: "s1 = advance s (Suc 0)"
    using stream_next_bit_Some [OF assms(1)] by blast
  have d: "valid_blocks d \<noteq> 63" using assms(2) by simp
  have i1: "index_offset s1 = index_offset s + 1"
    by (simp add: s1 index_offset_advance)
  have one: "scan s d = scan s1 d \<and> scan_log s d = Candidate (index_offset s1) # scan_log s1 d"
    if "(ucast (word s1) :: u16) \<noteq> 0x4489"
  proof -
    have "sync_attempt (advance s (Suc 0)) = (No_sync, s1)"
      using that unfolding s1 by (rule sync_attempt_no_mark)
    then show ?thesis
      using scan_No_sync [OF bs d] by (simp add: i1)
  qed
  have two: "scan s d = scan s2 d \<and> scan_log s d = Candidate (index_offset s1) # scan_log s2 d \<and>
      index_offset s2 = index_offset s1 + 32 \<and>
      (\<forall>k\<in>{1..32}. Candidate (index_offset s1 + of_nat k) \<notin> set (scan_log s d))"
    if a: "(ucast (word s1) :: u16) = 0x4489 \<and> stream_next_bits s1 32 = (Some v, s2) \<and>
        word s2 \<noteq> 0x552aaaaa \<and> length (bits s) < 2 ^ 32"
  proof -
    have l: "32 \<le> length (bits s1)" and s2: "s2 = advance s1 32"
      using a stream_next_bits_Some [of s1 32 v s2] by simp_all
    have "sync_attempt (advance s (Suc 0)) = (No_sync, s2)"
      using a l unfolding s2 s1 by (intro sync_attempt_second_mark_differs) simp_all
    then have r: "scan s d = scan s2 d" "scan_log s d = Candidate (index_offset s1) # scan_log s2 d"
      using scan_No_sync [OF bs d] by (simp_all add: i1)
    have i2: "index_offset s2 = index_offset s1 + 32"
      by (simp add: s2 index_offset_advance)
    have skip: "Candidate (index_offset s1 + of_nat k) \<notin> set (scan_log s d)" if "k \<in> {1..32}" for k
    proof
      assume "Candidate (index_offset s1 + of_nat k) \<in> set (scan_log s d)"
      then have "index_offset s1 + of_nat k = index_offset s1 \<or>
          Candidate (index_offset s1 + of_nat k) \<in> set (scan_log s2 d)"
        by (simp add: r)
      then show False
      proof
        assume "index_offset s1 + of_nat k = index_offset s1"
        then have "(of_nat k :: u32) = of_nat 0" by simp
        moreover have "(of_nat 0 :: u32) \<noteq> of_nat k"
          using that by (intro of_nat_u32_neq) simp_all
        ultimately show False by simp
      next
        assume "Candidate (index_offset s1 + of_nat k) \<in> set (scan_log s2 d)"
        then obtain k' where k': "1 \<le> k'" "k' \<le> length (bits s2)"
          "index_offset s1 + of_nat k = index_offset s2 + of_nat k'"
          using candidate_range by blast
        then have "(of_nat k :: u32) = of_nat (32 + k')"
          by (simp add: i2)
        moreover have "(of_nat k :: u32) \<noteq> of_nat (32 + k')"
        proof (rule of_nat_u32_neq)
          show "k < 32 + k'" using that k'(1) by simp
          have "32 + k' \<le> length (bits s1)"
            using k'(2) l by (simp add: s2 bits_advance)
          then show "32 + k' < 2 ^ 32"
            using a by (simp add: s1 bits_advance bs)
        qed
        ultimately show False by simp
      qed
    qed
    show ?thesis
      using r i2 skip by blast
  qed
  show ?thesis
    using one two by blast
qed

text \<open>
  The amended C3 at a stream that fetches the last bit of a mark word and then holds 33
  clear cells.
\<close>

theorem scan_resumes_after_the_bits_read_witness:
  "stream_next_bit \<lparr>bits = True # replicate 33 False, word = 0x2244, index_offset = 15\<rparr> =
     (Some True, \<lparr>bits = replicate 33 False, word = 0x4489, index_offset = 16\<rparr>) \<and>
   valid_blocks (fresh blank_header) \<noteq> push_bit 6 1 - 1 \<and>
   (ucast (word \<lparr>bits = replicate 33 False, word = 0x4489, index_offset = 16\<rparr>) :: u16) = 0x4489 \<and>
   stream_next_bits \<lparr>bits = replicate 33 False, word = 0x4489, index_offset = 16\<rparr> 32 =
     (Some 0, \<lparr>bits = [False], word = 0, index_offset = 48\<rparr>) \<and>
   scan \<lparr>bits = True # replicate 33 False, word = 0x2244, index_offset = 15\<rparr> (fresh blank_header) =
     scan \<lparr>bits = [False], word = 0, index_offset = 48\<rparr> (fresh blank_header) \<and>
   Candidate 17 \<notin> set (scan_log
     \<lparr>bits = True # replicate 33 False, word = 0x2244, index_offset = 15\<rparr> (fresh blank_header))"
proof -
  let ?s = "\<lparr>bits = True # replicate 33 False, word = 0x2244, index_offset = 15\<rparr>"
  let ?s1 = "\<lparr>bits = replicate 33 False, word = 0x4489, index_offset = 16\<rparr>"
  let ?s2 = "\<lparr>bits = [False], word = 0, index_offset = 48\<rparr>"
  have a: "stream_next_bit ?s = (Some True, ?s1)"
    by (simp add: stream_next_bit_def)
  have b: "valid_blocks (fresh blank_header) \<noteq> push_bit 6 1 - 1"
    by (simp add: fresh_def)
  have c: "(ucast (word ?s1) :: u16) = 0x4489" by simp
  have "advance ?s1 32 = ?s2"
    by (simp add: advance_def feed_zero_cells)
  then have e: "stream_next_bits ?s1 32 = (Some 0, ?s2)"
    using stream_next_bits_enough [of 32 ?s1] by simp
  have f: "word ?s2 \<noteq> 0x552aaaaa" by simp
  have g: "length (bits ?s) < 2 ^ 32" by simp
  have "(1 :: nat) \<in> {1..32}" by simp
  then have "Candidate (index_offset ?s1 + of_nat 1) \<notin> set (scan_log ?s (fresh blank_header))"
    using scan_resumes_after_the_bits_read [OF a b, of 0 ?s2] c e f g by blast
  moreover have "scan ?s (fresh blank_header) = scan ?s2 (fresh blank_header)"
    using scan_resumes_after_the_bits_read [OF a b, of 0 ?s2] c e f g by blast
  ultimately show ?thesis
    using a b c e by simp
qed

text \<open>
  C3 as stated fails on a stream of 49 cells, a mark word and 33 clear cells: the mark
  word at position 16 is followed by 32 bits that are not the second mark word, and the
  positions 17 to 48 are never tested; the next position tested is 49.
\<close>

theorem every_bit_position_tested_counterexample:
  "length (bits (stream_open (raw_cells 16 0x4489 @ replicate 33 False))) = 49 \<and>
   Candidate 17 \<notin> set (scan_log (stream_open (raw_cells 16 0x4489 @ replicate 33 False))
      (fresh blank_header)) \<and>
   Candidate 48 \<notin> set (scan_log (stream_open (raw_cells 16 0x4489 @ replicate 33 False))
      (fresh blank_header)) \<and>
   Candidate 49 \<in> set (scan_log (stream_open (raw_cells 16 0x4489 @ replicate 33 False))
      (fresh blank_header))"
proof -
  have "[1..<17] = [1, 2, 3, 4, 5, 6, 7, 8, 9, 10, 11, 12, 13, 14, 15, 16 :: nat]"
    by (simp add: upt_rec)
  moreover have "length (bits (stream_open (raw_cells 16 0x4489 @ replicate 33 False))) = 49"
    by (simp add: stream_open_def raw_cells_def)
  ultimately show ?thesis
    by (simp add: scan_log_false_mark)
qed

subsection \<open>C4: demodulation\<close>

text \<open>
  C4, as amended. When a synchronization attempt completes its demodulation, it has
  stored exactly 6 * 513 words, from the 6 * 513 * 32 bits after the second mark word.
  Word \<open>j\<close> is built from one read of 32 bits, the bits from \<open>32 + 32 * j\<close> on after the
  mark word: the upper half of the accumulated word is the even plane, the lower half the
  odd plane; the even-position bits of the even plane are the odd-position bits of the
  word, the even-position bits of the odd plane its even-position bits; and the word is
  stored high byte first.
\<close>

theorem demodulation_one_read_per_word:
  assumes "fst (sync_attempt s) = Demodulated idx_off raw_dat" and "j < 6 * 513"
  shows "length raw_dat = 2 * (6 * 513) \<and>
     bits (snd (sync_attempt s)) = drop (32 + 32 * (6 * 513)) (bits s) \<and>
     (let w = feed 0 (take 32 (drop (32 + 32 * j) (bits s)));
          ev = (ucast (drop_bit 16 w) :: u16);
          od = (ucast w :: u16);
          x = ntohs_load raw_dat j
      in x = push_bit 1 (ev AND 0x5555) OR (od AND 0x5555) \<and>
         (\<forall>i<8. bit x (2 * i + 1) = bit ev (2 * i) \<and> bit x (2 * i) = bit od (2 * i)) \<and>
         take 2 (drop (2 * j) raw_dat) = [ucast (drop_bit 8 x), ucast x])"
proof -
  let ?w = "\<lambda>j. feed 0 (take 32 (drop (32 + 32 * j) (bits s)))"
  have r: "raw_dat = concat (map (\<lambda>j. htons_store (demod_word (?w j))) [0..<6 * 513])"
    by (rule sync_attempt_Demodulated(2) [OF assms(1)])
  have l: "length raw_dat = 2 * (6 * 513)"
    unfolding r by (rule length_demodulated)
  have b: "bits (snd (sync_attempt s)) = drop (32 + 32 * (6 * 513)) (bits s)"
    by (simp only: sync_attempt_Demodulated(3) [OF assms(1)] bits_advance)
  have x: "ntohs_load raw_dat j = demod_word (?w j)"
    unfolding r using assms(2) by (rule nth_demodulated)
  have t: "take 2 (drop (2 * j) raw_dat) = htons_store (demod_word (?w j))"
    unfolding r using assms(2) by (rule bytes_demodulated)
  have e: "bit (demod_word (?w j)) (2 * i + 1) = bit (ucast (drop_bit 16 (?w j)) :: u16) (2 * i)
      \<and> bit (demod_word (?w j)) (2 * i) = bit (ucast (?w j) :: u16) (2 * i)" if "i < 8" for i
    using that by (simp add: bit_demod_word bit_ucast_iff bit_drop_bit_eq add.commute)
  show ?thesis
    using e by (simp add: l b x t Let_def htons_store_def) (simp add: demod_word_def Let_def)
qed

text \<open>The amended C4 at word 5 of a track of clear cells.\<close>

theorem demodulation_one_read_per_word_witness:
  "fst (sync_attempt (clear_track 16)) = Demodulated 1 (replicate 6156 0) \<and> (5 :: nat) < 6 * 513 \<and>
   length (replicate 6156 (0 :: u8)) = 2 * (6 * 513) \<and>
   ntohs_load (replicate 6156 0) 5 = 0 \<and>
   take 2 (drop (2 * 5) (replicate 6156 (0 :: u8))) = [0, 0]"
proof -
  have a: "fst (sync_attempt (clear_track 16)) = Demodulated 1 (replicate 6156 0)"
    using sync_attempt_clear_track [of 16] by simp
  have b: "(5 :: nat) < 6 * 513" by simp
  have z: "feed 0 (take 32 (drop 192 (bits (clear_track 16)))) = 0"
    by (simp add: clear_track_def length_mark_cells feed_zero_cells)
  show ?thesis
    using a demodulation_one_read_per_word [OF a b]
    by (simp add: Let_def z)
qed

text \<open>
  C4 as stated fails: a stream that holds 32 bits for the second mark word and then
  \<open>32 * (6 * 513)\<close> bits is demodulated to the end, to 6 * 513 words. Two reads of 32
  bits for each word would have run out of bits halfway.
\<close>

theorem demodulation_two_reads_counterexample:
  "length (bits (clear_track 16)) = 32 + 32 * (6 * 513) \<and>
   fst (sync_attempt (clear_track 16)) = Demodulated 1 (replicate (2 * (6 * 513)) 0)"
  using sync_attempt_clear_track [of 16] by (simp add: clear_track_def length_mark_cells)

subsection \<open>C5: the sector checks\<close>

text \<open>
  C5. Let \<open>raw_dat\<close> hold 6 * 513 demodulated words, and take sector \<open>j\<close> of the six. Word
  \<open>513 * j\<close> is the expected checksum and the 512 words after it are the body. After the
  checks of one attempt, bit \<open>j\<close> of the validity mask is set exactly when the wraparound
  sum of the body equals the expected checksum or the bit was set before; and slot \<open>j\<close> of
  the buffer holds the 1024 bytes of the body when the sum equals the expected checksum,
  and what it held before otherwise.
\<close>

theorem sector_validation:
  assumes "length (block d) = 6 * 1024" and "length raw_dat = 2 * (6 * 513)" and "j < 6"
  shows "let csum = ntohs_load raw_dat (513 * j);
             c = sum_list (map (\<lambda>k. ntohs_load raw_dat (513 * j + 1 + k)) [0..<512]);
             d' = validate raw_dat idx_off d
         in (bit (valid_blocks d') j \<longleftrightarrow> c = csum \<or> bit (valid_blocks d) j) \<and>
            slot (block d') j =
              (if c = csum then take 1024 (drop (2 * (513 * j + 1)) raw_dat)
               else slot (block d) j)"
proof -
  have ok: "csum_ok raw_dat j \<longleftrightarrow>
      sum_list (map (\<lambda>k. ntohs_load raw_dat (513 * j + 1 + k)) [0..<512]) =
        ntohs_load raw_dat (513 * j)"
    by (simp add: csum_ok_def sector_sum_sum_list mult.commute [of j 513])
  have b: "body raw_dat j = take 1024 (drop (2 * (513 * j + 1)) raw_dat)"
    by (simp add: body_def mult.commute [of j 513])
  have l: "length (block d) = 6144" "length raw_dat = 6156"
    using assms by simp_all
  have s: "slot (block (validate raw_dat idx_off d)) j =
      (if csum_ok raw_dat j then body raw_dat j else slot (block d) j)"
    by (rule validate_slot [OF l assms(3)])
  have v: "bit (valid_blocks (validate raw_dat idx_off d)) j \<longleftrightarrow>
      bit (valid_blocks d) j \<or> csum_ok raw_dat j"
    using assms(3) by (simp add: validate_valid_blocks)
  show ?thesis
    unfolding Let_def by (simp only: s v ok b) auto
qed

text \<open>C5 at sector 2 of a track of zero words, for a decoder that enters the scan loop.\<close>

theorem sector_validation_witness:
  "length (block (fresh blank_header)) = 6 * 1024 \<and>
   length (replicate 6156 (0 :: u8)) = 2 * (6 * 513) \<and> (2 :: nat) < 6 \<and>
   bit (valid_blocks (validate (replicate 6156 0) 1 (fresh blank_header))) (2 :: nat) \<and>
   slot (block (validate (replicate 6156 0) 1 (fresh blank_header))) 2 = replicate 1024 0"
proof -
  let ?d = "fresh blank_header"
  have a: "length (block ?d) = 6 * 1024"
    by (simp add: fresh_def length_sentinel_block)
  have b: "length (replicate 6156 (0 :: u8)) = 2 * (6 * 513)" by simp
  have c: "(2 :: nat) < 6" by simp
  have z: "ntohs_load (replicate 6156 0) k = 0" if "k < 3078" for k
    using that by (simp add: ntohs_load_def)
  have "map (\<lambda>k. ntohs_load (replicate 6156 0) (1027 + k)) [0..<512] =
      map (\<lambda>k. 0) [0..<512]"
    by (rule map_cong) (simp_all add: z)
  then have s: "sum_list (map (\<lambda>k. ntohs_load (replicate 6156 0) (1027 + k)) [0..<512]) = 0"
    by (simp only: sum_list_0)
  show ?thesis
    using a b c sector_validation [OF a b c, of 1]
    by (simp add: Let_def s z)
qed

subsection \<open>C6: the result of a decode\<close>

text \<open>
  C6. The decoder returns \<open>NULL\<close> exactly when the stream is exhausted and no attempt of
  the scan validated a sector; the track header is then as it was. Otherwise it returns
  the buffer of 6 * 1024 bytes, and the header has sector size 1024, sector count 6,
  length 6144 and the validity mask of the scan, which is not empty.
\<close>

theorem no_data_iff_nothing_validated:
  "(fst (lemmings_write_mfm tracknr h s) = None \<longleftrightarrow>
      bits (snd (snd (lemmings_write_mfm tracknr h s))) = [] \<and>
      (\<forall>idx_off raw_dat. Attempt idx_off raw_dat \<in> set (scan_log s (fresh h)) \<longrightarrow>
         \<not> (\<exists>j<6. csum_ok raw_dat j))) \<and>
   (case lemmings_write_mfm tracknr h s of
      (None, h', s') \<Rightarrow> h' = h
    | (Some blk, h', s') \<Rightarrow>
        blk = block (snd (scan s (fresh h))) \<and> length blk = 6 * 1024 \<and>
        bytes_per_sector h' = 1024 \<and> nr_sectors h' = 6 \<and> len h' = 6144 \<and>
        valid_sectors h' = valid_blocks (snd (scan s (fresh h))) \<and> valid_sectors h' \<noteq> 0)"
proof -
  obtain s' d where sd: "scan s (fresh h) = (s', d)"
    by (cases "scan s (fresh h)")
  have e: "valid_blocks d = 0 \<Longrightarrow> bits s' = []"
    using scan_stream_end [of s "fresh h"] sd by simp
  have z: "valid_blocks d = 0 \<longleftrightarrow>
      (\<forall>idx_off raw_dat. Attempt idx_off raw_dat \<in> set (scan_log s (fresh h)) \<longrightarrow>
         \<not> (\<exists>j<6. csum_ok raw_dat j))"
    using scan_fresh_valid_blocks_0 [of s h] sd by simp
  have l: "length (block d) = 6144"
    using scan_length [of "fresh h" s] sd by (simp add: fresh_def length_sentinel_block)
  have t: "valid_blocks d = 0 \<Longrightarrow> th d = h"
  proof -
    assume "valid_blocks d = 0"
    then have "\<forall>idx_off raw_dat. Attempt idx_off raw_dat \<in> set (scan_log s (fresh h)) \<longrightarrow>
        \<not> (\<exists>j<6. csum_ok raw_dat j)"
      using z by simp
    then have "offset_after off (scan_log s (fresh h)) = off" for off
      by (rule offset_after_unchanged)
    then have "data_bitoff (th d) = data_bitoff h"
      using scan_offset [of s "fresh h"] sd by (simp add: fresh_def)
    then show "th d = h"
      using scan_th [of s "fresh h"] sd by (simp add: fresh_def)
  qed
  show ?thesis
    using e z l t by (auto simp add: lemmings_write_mfm_eq finish_def sd)
qed

text \<open>C6 at a stream without bits, and at the stream of an encoded track.\<close>

theorem no_data_iff_nothing_validated_witness:
  "fst (lemmings_write_mfm 0 blank_header (stream_open [])) = None \<and>
   (case lemmings_write_mfm 0 blank_header (encoded_stream 21 (replicate 6144 0)) of
      (None, h', s') \<Rightarrow> False
    | (Some blk, h', s') \<Rightarrow>
        length blk = 6 * 1024 \<and> bytes_per_sector h' = 1024 \<and> nr_sectors h' = 6 \<and>
        len h' = 6144 \<and> valid_sectors h' = 21)"
proof -
  have e: "scan (stream_open []) (fresh blank_header) = (stream_open [], fresh blank_header)"
    by (rule scan_exhausted) (simp add: stream_open_def)
  have "bits (snd (snd (lemmings_write_mfm 0 blank_header (stream_open [])))) = []"
    by (simp only: lemmings_write_mfm_eq e) (simp add: finish_def fresh_def stream_open_def)
  moreover have "scan_log (stream_open []) (fresh blank_header) = []"
    by (rule scan_log_exhausted) (simp add: stream_open_def)
  ultimately have 1: "fst (lemmings_write_mfm 0 blank_header (stream_open [])) = None"
    using no_data_iff_nothing_validated [of 0 blank_header "stream_open []"] by simp
  have v: "valid_blocks (snd (scan (encoded_stream 21 (replicate 6144 0)) (fresh blank_header))) = 21"
    unfolding encoded_stream_def by (simp add: scan_encoded_valid_blocks)
  then have "fst (lemmings_write_mfm 0 blank_header (encoded_stream 21 (replicate 6144 0))) \<noteq> None"
    by (simp add: lemmings_write_mfm_None)
  then have 2: "case lemmings_write_mfm 0 blank_header (encoded_stream 21 (replicate 6144 0)) of
      (None, h', s') \<Rightarrow> False
    | (Some blk, h', s') \<Rightarrow>
        length blk = 6 * 1024 \<and> bytes_per_sector h' = 1024 \<and> nr_sectors h' = 6 \<and>
        len h' = 6144 \<and> valid_sectors h' = 21"
    using no_data_iff_nothing_validated [of 0 blank_header "encoded_stream 21 (replicate 6144 0)"] v
    by (auto split: prod.splits option.splits)
  show ?thesis
    using 1 2 by simp
qed

subsection \<open>C7: the recorded offset\<close>

text \<open>
  C7. One attempt records its offset in the track header exactly when a sector validated
  in it. Over the scan loop, when the history ends with an attempt in which a sector
  validated, followed only by attempts in which none did, the header holds the offset of
  that attempt, whatever came before it; and when no attempt validated a sector, the
  header holds the offset it held before.
\<close>

theorem offset_of_last_successful_attempt:
  "data_bitoff (th (validate raw_dat idx_off d)) =
     (if \<exists>j<6. csum_ok raw_dat j then idx_off else data_bitoff (th d)) \<and>
   (\<forall>es1 idx raw es2.
      scan_log s d = es1 @ Attempt idx raw # es2 \<and> (\<exists>j<6. csum_ok raw j) \<and>
      (\<forall>i r. Attempt i r \<in> set es2 \<longrightarrow> \<not> (\<exists>j<6. csum_ok r j)) \<longrightarrow>
      data_bitoff (th (snd (scan s d))) = idx) \<and>
   ((\<forall>i r. Attempt i r \<in> set (scan_log s d) \<longrightarrow> \<not> (\<exists>j<6. csum_ok r j)) \<longrightarrow>
      data_bitoff (th (snd (scan s d))) = data_bitoff (th d))"
proof (intro conjI allI impI)
  show "data_bitoff (th (validate raw_dat idx_off d)) =
      (if \<exists>j<6. csum_ok raw_dat j then idx_off else data_bitoff (th d))"
    by (cases "\<exists>j<6. csum_ok raw_dat j") (simp_all only: validate_th if_True if_False, simp_all)
next
  fix es1 idx raw es2
  assume a: "scan_log s d = es1 @ Attempt idx raw # es2 \<and> (\<exists>j<6. csum_ok raw j) \<and>
      (\<forall>i r. Attempt i r \<in> set es2 \<longrightarrow> \<not> (\<exists>j<6. csum_ok r j))"
  then have "offset_after (data_bitoff (th d)) (scan_log s d) = offset_after idx es2"
    by (simp add: offset_after_append cong: conj_cong)
  also have "\<dots> = idx"
    using a by (intro offset_after_unchanged) simp
  finally show "data_bitoff (th (snd (scan s d))) = idx"
    by (simp only: scan_offset)
next
  assume "\<forall>i r. Attempt i r \<in> set (scan_log s d) \<longrightarrow> \<not> (\<exists>j<6. csum_ok r j)"
  then show "data_bitoff (th (snd (scan s d))) = data_bitoff (th d)"
    by (simp only: scan_offset offset_after_unchanged)
qed

text \<open>
  C7 at a stream of two copies of a track: a sector validates in the attempt at offset 1
  and in the attempt at offset 98545, and the header holds 98545.
\<close>

theorem offset_of_last_successful_attempt_witness:
  "Attempt 1 (track_raw 31 (replicate 6144 0)) \<in> set (scan_log two_copies (fresh blank_header)) \<and>
   (\<exists>j<6. csum_ok (track_raw 31 (replicate 6144 0)) j) \<and>
   data_bitoff (th (snd (scan two_copies (fresh blank_header)))) = 98545"
proof -
  let ?raw1 = "track_raw 31 (replicate 6144 0)"
  let ?raw2 = "track_raw 63 (replicate 6144 255)"
  let ?es1 = "map (\<lambda>k. Candidate (of_nat k)) [1..<17] @ Attempt 1 ?raw1
      # map (\<lambda>k. Candidate (98544 + of_nat k)) [1..<17]"
  have l: "scan_log two_copies (fresh blank_header) = ?es1 @ Attempt 98545 ?raw2 # []"
    using scan_two_copies [of blank_header] by simp
  have s1: "\<exists>j<6. csum_ok ?raw1 j"
    using csum_ok_first_copy(1) by (intro exI [of _ 0]) simp
  have s2: "\<exists>j<6. csum_ok ?raw2 j"
    using csum_ok_second_copy(1) by (intro exI [of _ 0]) simp
  have "scan_log two_copies (fresh blank_header) = ?es1 @ Attempt 98545 ?raw2 # [] \<and>
      (\<exists>j<6. csum_ok ?raw2 j) \<and>
      (\<forall>i r. Attempt i r \<in> set [] \<longrightarrow> \<not> (\<exists>j<6. csum_ok r j))"
    using l s2 by simp
  then have "data_bitoff (th (snd (scan two_copies (fresh blank_header)))) = 98545"
    using offset_of_last_successful_attempt [of ?raw2 98545 "fresh blank_header" two_copies]
    by blast
  moreover have "Attempt 1 ?raw1 \<in> set (scan_log two_copies (fresh blank_header))"
    unfolding l by simp
  ultimately show ?thesis
    using s1 by simp
qed

subsection \<open>C8: the offset of an attempt\<close>

text \<open>
  C8, as amended. The offset of a synchronization attempt that completes its
  demodulation is the stream's bit position at the end of the 16-bit mark word, less 15,
  in 32-bit arithmetic.
\<close>

theorem data_offset_backdated_by_15:
  assumes "fst (sync_attempt s) = Demodulated idx_off raw_dat"
  shows "(ucast (word s) :: u16) = 0x4489 \<and> idx_off = index_offset s - 15"
  using sync_attempt_Demodulated(1,4) [OF assms] by simp

text \<open>The amended C8 at a mark word that ends at bit position 16.\<close>

theorem data_offset_backdated_by_15_witness:
  "fst (sync_attempt (clear_track 16)) = Demodulated 1 (replicate 6156 0) \<and>
   (ucast (word (clear_track 16)) :: u16) = 0x4489 \<and> (1 :: u32) = index_offset (clear_track 16) - 15"
proof -
  have a: "fst (sync_attempt (clear_track 16)) = Demodulated 1 (replicate 6156 0)"
    using sync_attempt_clear_track [of 16] by simp
  show ?thesis
    using a data_offset_backdated_by_15 [OF a] by simp
qed

text \<open>
  C8 as stated fails: for a mark word that ends at bit position 100 the offset of the
  attempt is 85, and the position less the 16 bits of the mark word is 84.
\<close>

theorem data_offset_backdated_by_16_counterexample:
  "fst (sync_attempt (clear_track 100)) = Demodulated 85 (replicate 6156 0) \<and>
   index_offset (clear_track 100) - 16 = 84"
  using sync_attempt_clear_track [of 100] by (simp add: clear_track_def)

subsection \<open>C9: the emissions of the encoder\<close>

text \<open>
  C9. For a buffer of 6 * 1024 bytes the encoder emits, in this order: the mark word
  0x4489 as 16 raw bits; the 16 bits 0xf000 as data bits, whose cells after the mark word
  are those of 0x552aaaaa; then for each of the six sectors, in order, the checksum word
  as two emissions of 16 bits with the same value, tagged even and odd, and the 512 data
  words of the sector in their order, each as two such emissions.
\<close>

theorem emission_sequence:
  assumes "length p = 6 * 1024"
  shows "emitted (lemmings_read_mfm tracknr tbuf h p) =
     [\<lparr>em_speed = DEFAULT_SPEED, em_type = TBUFDAT_raw, em_bits = 16, em_x = 0x4489\<rparr>,
      \<lparr>em_speed = DEFAULT_SPEED, em_type = TBUFDAT_all, em_bits = 16, em_x = 0xf000\<rparr>]
     @ concat (map (\<lambda>i.
         [\<lparr>em_speed = DEFAULT_SPEED, em_type = TBUFDAT_even, em_bits = 16,
            em_x = ucast (emitted_csum (valid_sectors h) p i)\<rparr>,
          \<lparr>em_speed = DEFAULT_SPEED, em_type = TBUFDAT_odd, em_bits = 16,
            em_x = ucast (emitted_csum (valid_sectors h) p i)\<rparr>]
         @ concat (map (\<lambda>j.
             [\<lparr>em_speed = DEFAULT_SPEED, em_type = TBUFDAT_even, em_bits = 16,
                em_x = ucast (ntohs_load p (512 * i + j))\<rparr>,
              \<lparr>em_speed = DEFAULT_SPEED, em_type = TBUFDAT_odd, em_bits = 16,
                em_x = ucast (ntohs_load p (512 * i + j))\<rparr>]) [0..<512])) [0..<6])
   \<and> modulate False
       [\<lparr>em_speed = DEFAULT_SPEED, em_type = TBUFDAT_raw, em_bits = 16, em_x = 0x4489\<rparr>,
        \<lparr>em_speed = DEFAULT_SPEED, em_type = TBUFDAT_all, em_bits = 16, em_x = 0xf000\<rparr>]
     = raw_cells 16 0x4489 @ raw_cells 32 0x552aaaaa"
proof -
  have w: "concat (map word_emissions (sector_words valid p i)) =
      [\<lparr>em_speed = DEFAULT_SPEED, em_type = TBUFDAT_even, em_bits = 16,
          em_x = ucast (emitted_csum valid p i)\<rparr>,
       \<lparr>em_speed = DEFAULT_SPEED, em_type = TBUFDAT_odd, em_bits = 16,
          em_x = ucast (emitted_csum valid p i)\<rparr>]
      @ concat (map (\<lambda>j.
          [\<lparr>em_speed = DEFAULT_SPEED, em_type = TBUFDAT_even, em_bits = 16,
             em_x = ucast (ntohs_load p (512 * i + j))\<rparr>,
           \<lparr>em_speed = DEFAULT_SPEED, em_type = TBUFDAT_odd, em_bits = 16,
             em_x = ucast (ntohs_load p (512 * i + j))\<rparr>]) [0..<512])" for valid i
    by (simp add: sector_words_def word_emissions_def comp_def)
  have "concat (map word_emissions (track_words valid p)) =
      concat (map (\<lambda>i. concat (map word_emissions (sector_words valid p i))) [0..<6])" for valid
    unfolding track_words_def by (simp only: concat_map_concat map_map comp_def)
  then have a: ?thesis if "modulate False
       [\<lparr>em_speed = DEFAULT_SPEED, em_type = TBUFDAT_raw, em_bits = 16, em_x = 0x4489\<rparr>,
        \<lparr>em_speed = DEFAULT_SPEED, em_type = TBUFDAT_all, em_bits = 16, em_x = 0xf000\<rparr>]
     = raw_cells 16 0x4489 @ raw_cells 32 0x552aaaaa"
    using that by (simp only: emitted_lemmings_read_mfm w) simp
  have "modulate False
       [\<lparr>em_speed = DEFAULT_SPEED, em_type = TBUFDAT_raw, em_bits = 16, em_x = 0x4489\<rparr>,
        \<lparr>em_speed = DEFAULT_SPEED, em_type = TBUFDAT_all, em_bits = 16, em_x = 0xf000\<rparr>]
      = mark_cells"
    using modulate_marks [of "[]"] by simp
  then show ?thesis
    by (intro a) (simp only: marks_raw_cells)
qed

text \<open>C9 at a buffer of zero bytes: the first two emissions.\<close>

theorem emission_sequence_witness:
  "length (replicate 6144 (0 :: u8)) = 6 * 1024 \<and>
   take 2 (emitted (lemmings_read_mfm 0 \<lparr>start = 0, len = 0, emitted = [], sealed = False\<rparr>
      (blank_header\<lparr>valid_sectors := 21\<rparr>) (replicate 6144 0))) =
     [\<lparr>em_speed = DEFAULT_SPEED, em_type = TBUFDAT_raw, em_bits = 16, em_x = 0x4489\<rparr>,
      \<lparr>em_speed = DEFAULT_SPEED, em_type = TBUFDAT_all, em_bits = 16, em_x = 0xf000\<rparr>]"
proof -
  have a: "length (replicate 6144 (0 :: u8)) = 6 * 1024" by simp
  show ?thesis
    using a emission_sequence [OF a, of 0 "\<lparr>start = 0, len = 0, emitted = [], sealed = False\<rparr>"
        "blank_header\<lparr>valid_sectors := 21\<rparr>"]
    by simp
qed

subsection \<open>C10: the validity mask over the scan\<close>

text \<open>
  C10. Over the scan loop, for a sector \<open>i\<close> of the six: a bit of the validity mask that
  is set stays set; the bit is set at the end exactly when it was set before or sector
  \<open>i\<close> validated in some attempt; slot \<open>i\<close> of the buffer holds the body of the last
  attempt in which sector \<open>i\<close> validated, whatever came before it; and the slot is as it was
  when sector \<open>i\<close> validated in no attempt.
\<close>

theorem validity_mask_is_union:
  assumes "length (block d) = 6 * 1024" and "i < 6"
  shows "(bit (valid_blocks d) i \<longrightarrow> bit (valid_blocks (snd (scan s d))) i) \<and>
     (bit (valid_blocks (snd (scan s d))) i \<longleftrightarrow>
        bit (valid_blocks d) i \<or>
        (\<exists>idx_off raw_dat. Attempt idx_off raw_dat \<in> set (scan_log s d) \<and> csum_ok raw_dat i)) \<and>
     (\<forall>es1 idx raw es2.
        scan_log s d = es1 @ Attempt idx raw # es2 \<and> csum_ok raw i \<and>
        (\<forall>k r. Attempt k r \<in> set es2 \<longrightarrow> \<not> csum_ok r i) \<longrightarrow>
        slot (block (snd (scan s d))) i = body raw i) \<and>
     ((\<forall>k r. Attempt k r \<in> set (scan_log s d) \<longrightarrow> \<not> csum_ok r i) \<longrightarrow>
        slot (block (snd (scan s d))) i = slot (block d) i)"
proof -
  have l: "length (block d) = 6144" using assms(1) by simp
  have v: "bit (valid_blocks (snd (scan s d))) i \<longleftrightarrow>
        bit (valid_blocks d) i \<or>
        (\<exists>idx_off raw_dat. Attempt idx_off raw_dat \<in> set (scan_log s d) \<and> csum_ok raw_dat i)"
    using assms(2) by (simp add: scan_valid_blocks)
  have sl: "slot (block (snd (scan s d))) i = slot_after i (slot (block d) i) (scan_log s d)"
    by (rule scan_slot [OF l assms(2)])
  have c: "slot (block (snd (scan s d))) i = body raw i"
    if "scan_log s d = es1 @ Attempt idx raw # es2 \<and> csum_ok raw i \<and>
        (\<forall>k r. Attempt k r \<in> set es2 \<longrightarrow> \<not> csum_ok r i)" for es1 idx raw es2
  proof -
    have "slot_after i (slot (block d) i) (scan_log s d) = slot_after i (body raw i) es2"
      using that by (simp add: slot_after_append)
    also have "\<dots> = body raw i"
      using that by (intro slot_after_unchanged) simp
    finally show ?thesis by (simp only: sl)
  qed
  have u: "slot (block (snd (scan s d))) i = slot (block d) i"
    if "\<forall>k r. Attempt k r \<in> set (scan_log s d) \<longrightarrow> \<not> csum_ok r i"
    using that by (simp only: sl slot_after_unchanged)
  show ?thesis
    using v c u by blast
qed

text \<open>
  C10 at sector 0 of a stream of two copies of a track: the sector validates in both
  attempts, with zero bytes in the first, and the slot holds the bytes 255 of the second.
\<close>

theorem validity_mask_is_union_witness:
  "length (block (fresh blank_header)) = 6 * 1024 \<and> (0 :: nat) < 6 \<and>
   Attempt 1 (track_raw 31 (replicate 6144 0)) \<in> set (scan_log two_copies (fresh blank_header)) \<and>
   csum_ok (track_raw 31 (replicate 6144 0)) 0 \<and>
   body (track_raw 31 (replicate 6144 0)) 0 = replicate 1024 0 \<and>
   bit (valid_blocks (snd (scan two_copies (fresh blank_header)))) (0 :: nat) \<and>
   slot (block (snd (scan two_copies (fresh blank_header)))) 0 = replicate 1024 255"
proof -
  let ?raw1 = "track_raw 31 (replicate 6144 0)"
  let ?raw2 = "track_raw 63 (replicate 6144 255)"
  let ?es1 = "map (\<lambda>k. Candidate (of_nat k)) [1..<17] @ Attempt 1 ?raw1
      # map (\<lambda>k. Candidate (98544 + of_nat k)) [1..<17]"
  have a: "length (block (fresh blank_header)) = 6 * 1024"
    by (simp add: fresh_def length_sentinel_block)
  have b: "(0 :: nat) < 6" by simp
  have l: "scan_log two_copies (fresh blank_header) = ?es1 @ Attempt 98545 ?raw2 # []"
    using scan_two_copies [of blank_header] by simp
  have m: "Attempt 1 ?raw1 \<in> set (scan_log two_copies (fresh blank_header))"
    unfolding l by simp
  have b1: "body ?raw1 0 = replicate 1024 0"
    using body_track_raw [of 0 "replicate 6144 0" 31] by (simp add: slot_def)
  have b2: "body ?raw2 0 = replicate 1024 255"
    using body_track_raw [of 0 "replicate 6144 255" 63] by (simp add: slot_def)
  have "scan_log two_copies (fresh blank_header) = ?es1 @ Attempt 98545 ?raw2 # [] \<and>
      csum_ok ?raw2 0 \<and> (\<forall>k r. Attempt k r \<in> set [] \<longrightarrow> \<not> csum_ok r 0)"
    using l csum_ok_second_copy(1) by simp
  then have "slot (block (snd (scan two_copies (fresh blank_header)))) 0 = body ?raw2 0"
    using validity_mask_is_union [OF a b, of two_copies] by blast
  moreover have "bit (valid_blocks (snd (scan two_copies (fresh blank_header)))) (0 :: nat)"
    using validity_mask_is_union [OF a b, of two_copies] m csum_ok_first_copy(1) by blast
  ultimately show ?thesis
    using a b m csum_ok_first_copy(1) b1 b2 by simp
qed

end
